theory Spec2Isabelle
  imports Complex_Main "HOL-Library.Char_ord" "HOL-Library.List_Lexorder" "HOL-Library.Multiset"
begin

section \<open>Errors and common types\<close>

text \<open>
  The Go code reports failures through \<open>error\<close> values; \<open>nil\<close> is success. The model
  uses one datatype for the error values that the embedded functions can return, an
  \<open>option\<close> for a bare \<open>error\<close> result (\<open>None\<close> is \<open>nil\<close>) and a sum for a
  result paired with an error (\<open>Inl\<close> the error). A run-time panic of Go (index out of
  range, slice bounds, \<open>rand.Intn\<close> on a non-positive bound) is the value \<open>Panic\<close>.
  \<open>errDisk\<close> stands for any error a single disk or the Reed-Solomon library reports.
\<close>

datatype xlError =
    errXLMaxDisks
  | errXLMinDisks
  | errXLNumDisks
  | errXLReadQuorum
  | errUnexpected
  | errWriteQuorum
  | errInvalidArgument
  | errVerificationFailed
  | errDisk string
  | Panic string

type_synonym byte = nat

section \<open>Engine construction: \<open>checkSufficientDisks\<close>, \<open>newXLObjects\<close>, \<open>newXL\<close>\<close>

definition maxErasureBlocks :: nat where
  "maxErasureBlocks = 16"

definition minErasureBlocks :: nat where
  "minErasureBlocks = 6"

text \<open>The closure \<open>isEven\<close> of \<open>checkSufficientDisks\<close>; the count is a length, never negative.\<close>

definition isEven :: "nat \<Rightarrow> bool" where
  "isEven number = (number mod 2 = 0)"

definition checkSufficientDisks :: "string list \<Rightarrow> xlError option" where
  "checkSufficientDisks disks =
     (let totalDisks = length disks in
      if totalDisks > maxErasureBlocks then Some errXLMaxDisks
      else if totalDisks < minErasureBlocks then Some errXLMinDisks
      else if \<not> isEven totalDisks then Some errXLNumDisks
      else None)"

record 'd xlObjects =
  physicalDisks :: "string list"
  storageDisks :: "'d option list"
  xl_dataBlocks :: nat
  xl_parityBlocks :: nat
  readQuorum :: nat
  writeQuorum :: nat

text \<open>
  \<open>newXLObjects\<close>. Everything between the disk-count check and the construction of the
  struct (opening the disks, loading, checking, initialising and healing \<open>format.json\<close>,
  house keeping, \<open>loadFormatXL\<close>) is disk I/O done by functions that are not among the
  sources; it is the parameter \<open>bootstrap\<close>, which returns either the error that makes
  \<open>newXLObjects\<close> fail or the slice \<open>newPosixDisks\<close>. The struct literal leaves both
  quorums at Go's zero value; the two assignments after it set them. The fields
  \<open>dataBlocks\<close> and \<open>parityBlocks\<close> carry the prefix \<open>xl_\<close>: the plain names are
  arguments of the erasure functions.
\<close>

definition newXLObjects ::
  "(string list \<Rightarrow> xlError + 'd option list) \<Rightarrow> string list \<Rightarrow> xlError + 'd xlObjects" where
  "newXLObjects bootstrap disks =
     (case checkSufficientDisks disks of
        Some err \<Rightarrow> Inl err
      | None \<Rightarrow>
          (case bootstrap disks of
             Inl err \<Rightarrow> Inl err
           | Inr newPosixDisks \<Rightarrow>
               (let xl = \<lparr> physicalDisks = disks,
                           storageDisks = newPosixDisks,
                           xl_dataBlocks = length newPosixDisks div 2,
                           xl_parityBlocks = length newPosixDisks div 2,
                           readQuorum = 0,
                           writeQuorum = 0 \<rparr>;
                    xl = xl \<lparr> readQuorum := length (storageDisks xl) div 2 + 1 \<rparr>;
                    xl = xl \<lparr> writeQuorum := length (storageDisks xl) div 2 + 1 \<rparr>
                in Inr xl)))"

text \<open>
  The storage layer \<open>XL\<close> of \<open>newXL\<close>. Its fields carry the prefix \<open>XL_\<close> where the
  name is also a field of \<open>xlObjects\<close>. \<open>reedsolomon.New\<close> belongs to an external
  library: the parameter \<open>rsNew\<close> gives its result for the two shard counts.
\<close>

record ('d, 'rs) XL =
  ReedSolomon :: "'rs option"
  DataBlocks :: nat
  ParityBlocks :: nat
  XL_storageDisks :: "'d option list"
  XL_readQuorum :: nat
  XL_writeQuorum :: nat

definition newXL ::
  "(nat \<Rightarrow> nat \<Rightarrow> xlError + 'rs) \<Rightarrow> 'd option list \<Rightarrow> xlError + ('d, 'rs) XL" where
  "newXL rsNew disks =
     (let xl = \<lparr> ReedSolomon = None, DataBlocks = 0, ParityBlocks = 0,
                 XL_storageDisks = [], XL_readQuorum = 0, XL_writeQuorum = 0 \<rparr>;
          dataBlocks = length disks div 2;
          parityBlocks = length disks div 2
      in case rsNew dataBlocks parityBlocks of
           Inl err \<Rightarrow> Inl err
         | Inr rs \<Rightarrow>
             (let xl = xl \<lparr> DataBlocks := dataBlocks \<rparr>;
                  xl = xl \<lparr> ParityBlocks := parityBlocks \<rparr>;
                  xl = xl \<lparr> ReedSolomon := Some rs \<rparr>;
                  xl = xl \<lparr> XL_storageDisks := disks \<rparr>;
                  xl = xl \<lparr> XL_readQuorum := length (XL_storageDisks xl) div 2 + 1 \<rparr>;
                  xl = xl \<lparr> XL_writeQuorum := length (XL_storageDisks xl) div 2 + 3 \<rparr>;
                  xl = (if XL_writeQuorum xl > length (XL_storageDisks xl)
                        then xl \<lparr> XL_writeQuorum := length (XL_storageDisks xl) \<rparr>
                        else xl)
              in Inr xl))"

section \<open>The walker pool: \<open>saveTreeWalk\<close> and \<open>lookupTreeWalk\<close>\<close>









section \<open>Strings\<close>

text \<open>
  Go strings are byte sequences compared byte by byte; \<open>string\<close> with the order of
  \<open>Char_ord\<close> and \<open>List_Lexorder\<close> is the same order. The functions of package
  \<open>strings\<close> that the sources call:
\<close>

definition slashSeparator :: string where
  "slashSeparator = ''/''"

definition HasSuffix :: "string \<Rightarrow> string \<Rightarrow> bool" where
  "HasSuffix s suffix =
     (length s \<ge> length suffix \<and> drop (length s - length suffix) s = suffix)"

definition TrimSuffix :: "string \<Rightarrow> string \<Rightarrow> string" where
  "TrimSuffix s suffix =
     (if HasSuffix s suffix then take (length s - length suffix) s else s)"

definition HasPrefix :: "string \<Rightarrow> string \<Rightarrow> bool" where
  "HasPrefix s prefix = (length s \<ge> length prefix \<and> take (length prefix) s = prefix)"

section \<open>\<open>XL.ListDir\<close>\<close>

text \<open>
  \<open>rand.Intn(n)\<close> panics when \<open>n \<le> 0\<close> and otherwise returns a number in \<open>[0, n)\<close>.
  The random source is a sequence \<open>rnd\<close> of raw draws, one per attempt, reduced modulo
  \<open>n\<close>: every value \<open>Intn\<close> can return is obtained from some draw, and the theorems
  hold for every sequence.
\<close>

definition Intn :: "nat \<Rightarrow> int \<Rightarrow> xlError + nat" where
  "Intn raw n =
     (if n \<le> 0 then Inl (Panic ''invalid argument to Intn'') else Inr (raw mod nat n))"

text \<open>
  The operations of one disk (\<open>StorageAPI\<close>) that \<open>XL.ListDir\<close> calls, on a disk of
  type \<open>'d\<close>: \<open>ListDir\<close> returns the entries or an error, \<open>StatFile\<close> is reduced to
  whether its error is \<open>nil\<close>. \<open>pathJoin\<close> stands for \<open>path.Join\<close> of the standard
  library.
\<close>

record 'd listOps =
  diskListDir :: "'d \<Rightarrow> string \<Rightarrow> string \<Rightarrow> xlError + string list"
  diskStatFileOk :: "'d \<Rightarrow> string \<Rightarrow> string \<Rightarrow> bool"
  pathJoin :: "string \<Rightarrow> string \<Rightarrow> string"
  isValidVolname :: "string \<Rightarrow> bool"

definition xlMetaV1File :: string where
  "xlMetaV1File = ''file.json''"

definition isLeafDirectoryXL :: "'d listOps \<Rightarrow> 'd \<Rightarrow> string \<Rightarrow> string \<Rightarrow> bool" where
  "isLeafDirectoryXL ops disk volume leafPath =
     diskStatFileOk ops disk volume (pathJoin ops leafPath xlMetaV1File)"

text \<open>The inner loop of \<open>XL.ListDir\<close> over the entries of a successful listing.\<close>

definition trimLeafEntries :: "'d listOps \<Rightarrow> 'd \<Rightarrow> string \<Rightarrow> string \<Rightarrow> string list \<Rightarrow> string list" where
  "trimLeafEntries ops disk volume dirPath entries =
     map (\<lambda>entry.
            let isLeaf = isLeafDirectoryXL ops disk volume (pathJoin ops dirPath entry);
                isDir = HasSuffix entry slashSeparator
            in if isDir \<and> isLeaf then TrimSuffix entry slashSeparator else entry)
         entries"

text \<open>
  The attempt loop. The state is \<open>listErrCount\<close>, the last error \<open>err\<close> and, for the
  theorems, the list \<open>sel\<close> of the indices chosen so far. A \<open>nil\<close> disk makes the
  method call panic.
\<close>

function ListDir_loop ::
  "'d listOps \<Rightarrow> (nat \<Rightarrow> nat) \<Rightarrow> ('d, 'rs) XL \<Rightarrow> string \<Rightarrow> string \<Rightarrow>
     nat \<Rightarrow> xlError option \<Rightarrow> nat list \<Rightarrow> nat list \<times> (xlError + string list)" where
  "ListDir_loop ops rnd xl volume dirPath listErrCount err sel =
     (if listErrCount < length (XL_storageDisks xl) then
        (case Intn (rnd listErrCount) (int (length (XL_storageDisks xl)) - 1) of
           Inl p \<Rightarrow> (sel, Inl p)
         | Inr randIndex \<Rightarrow>
             (if randIndex \<ge> length (XL_storageDisks xl)
              then (sel @ [randIndex], Inl (Panic ''index out of range''))
              else (case XL_storageDisks xl ! randIndex of
                      None \<Rightarrow> (sel @ [randIndex], Inl (Panic ''nil pointer dereference''))
                    | Some disk \<Rightarrow>
                        (case diskListDir ops disk volume dirPath of
                           Inr entries \<Rightarrow>
                             (sel @ [randIndex],
                              Inr (trimLeafEntries ops disk volume dirPath entries))
                         | Inl e \<Rightarrow>
                             ListDir_loop ops rnd xl volume dirPath (listErrCount + 1)
                               (Some e) (sel @ [randIndex])))))
      else (sel, case err of None \<Rightarrow> Inr [] | Some e \<Rightarrow> Inl e))"
  by pat_completeness auto
termination
  by (relation "measure (\<lambda>(ops, rnd, xl, volume, dirPath, listErrCount, err, sel).
        length (XL_storageDisks xl) - listErrCount)") auto

text \<open>
  \<open>XL.ListDir\<close>: the result, paired with the indices of the disks chosen as listing
  source, in order.
\<close>

definition XL_ListDir ::
  "'d listOps \<Rightarrow> (nat \<Rightarrow> nat) \<Rightarrow> ('d, 'rs) XL \<Rightarrow> string \<Rightarrow> string \<Rightarrow>
     nat list \<times> (xlError + string list)" where
  "XL_ListDir ops rnd xl volume dirPath =
     (if \<not> isValidVolname ops volume then ([], Inl errInvalidArgument)
      else ListDir_loop ops rnd xl volume dirPath 0 None [])"

section \<open>64-bit integers\<close>

text \<open>
  \<open>int64\<close> values are modelled as \<open>int\<close> with the wrap-around written out: \<open>wrap64\<close>
  reduces a mathematical result to the two's complement range. Go's \<open>/\<close> truncates
  towards zero (\<open>tdiv\<close>) and panics on a zero divisor.
\<close>

definition wrap64 :: "int \<Rightarrow> int" where
  "wrap64 x = (x + 2 ^ 63) mod 2 ^ 64 - 2 ^ 63"

definition inInt64 :: "int \<Rightarrow> bool" where
  "inInt64 x = (- (2 ^ 63) \<le> x \<and> x < 2 ^ 63)"

definition tdiv :: "int \<Rightarrow> int \<Rightarrow> int" where
  "tdiv a b = sgn a * sgn b * (\<bar>a\<bar> div \<bar>b\<bar>)"

section \<open>\<open>xlObjects.StorageInfo\<close>\<close>

text \<open>
  \<open>disk.Info\<close> with the two fields that \<open>StorageInfo\<close> reads, and the result struct
  \<open>StorageInfo\<close>, whose fields carry the prefix \<open>si_\<close>.
\<close>

record diskInfo =
  Total :: int
  Free :: int

record storageInfo =
  si_Total :: int
  si_Free :: int

text \<open>
  The loop over \<open>xl.physicalDisks\<close>: \<open>getInfo\<close> is \<open>disk.GetInfo\<close>, a system call; a
  disk whose call fails is logged and skipped.
\<close>

fun collectDisksInfo ::
  "(string \<Rightarrow> xlError + diskInfo) \<Rightarrow> string list \<Rightarrow> diskInfo list \<Rightarrow> diskInfo list" where
  "collectDisksInfo getInfo [] disksInfo = disksInfo"
| "collectDisksInfo getInfo (diskPath # rest) disksInfo =
     (case getInfo diskPath of
        Inl err \<Rightarrow> collectDisksInfo getInfo rest disksInfo
      | Inr info \<Rightarrow> collectDisksInfo getInfo rest (disksInfo @ [info]))"

text \<open>
  \<open>sort.Sort(byDiskTotal(disksInfo))\<close> is the standard library's sort with
  \<open>Less(i, j) = d[i].Total < d[j].Total\<close>; it is not stable, so the order among disks of
  equal \<open>Total\<close> is the library's choice. The parameter \<open>sortByTotal\<close> stands for it;
  the theorems assume of it only that its result is a permutation of its argument in
  ascending order of \<open>Total\<close> (\<open>sortsByTotal\<close>). Indexing the empty slice panics.
\<close>

definition sortsByTotal :: "(diskInfo list \<Rightarrow> diskInfo list) \<Rightarrow> bool" where
  "sortsByTotal srt = (\<forall>xs. mset (srt xs) = mset xs \<and> sorted (map Total (srt xs)))"

definition StorageInfo ::
  "(string \<Rightarrow> xlError + diskInfo) \<Rightarrow> (diskInfo list \<Rightarrow> diskInfo list) \<Rightarrow>
     'd xlObjects \<Rightarrow> xlError + storageInfo" where
  "StorageInfo getInfo sortByTotal xl =
     (let disksInfo = collectDisksInfo getInfo (physicalDisks xl) [];
          disksInfo = sortByTotal disksInfo
      in case disksInfo of
           [] \<Rightarrow> Inl (Panic ''index out of range'')
         | d0 # rest \<Rightarrow>
             Inr \<lparr> si_Total = wrap64 (Total d0 * int (length (storageDisks xl))),
                   si_Free = wrap64 (Free d0 * int (length (storageDisks xl))) \<rparr>)"

text \<open>The infos of the physical disks on which \<open>disk.GetInfo\<close> succeeds.\<close>

definition reporting :: "(string \<Rightarrow> xlError + diskInfo) \<Rightarrow> 'd xlObjects \<Rightarrow> diskInfo set" where
  "reporting getInfo xl = {info. \<exists>p \<in> set (physicalDisks xl). getInfo p = Inr info}"

section \<open>Block geometry: \<open>getEncodedBlockLen\<close> and \<open>getDataBlocks\<close>\<close>

definition getEncodedBlockLen :: "int \<Rightarrow> int \<Rightarrow> xlError + int" where
  "getEncodedBlockLen inputLen dataBlocks =
     (if dataBlocks = 0 then Inl (Panic ''integer divide by zero'')
      else Inr (wrap64 (tdiv (wrap64 (wrap64 (inputLen + dataBlocks) - 1)) dataBlocks)))"

text \<open>
  An entry of the encoded-block vector \<open>enBlocks\<close> is \<open>nil\<close> (\<open>None\<close>) or a byte slice.
  Appending a \<open>nil\<close> slice appends nothing.
\<close>

type_synonym block = "byte list option"

definition blockBytes :: "block \<Rightarrow> byte list" where
  "blockBytes b = (case b of None \<Rightarrow> [] | Some bs \<Rightarrow> bs)"

fun appendBlocks :: "byte list \<Rightarrow> block list \<Rightarrow> byte list" where
  "appendBlocks data [] = data"
| "appendBlocks data (block # rest) = appendBlocks (data @ blockBytes block) rest"

text \<open>
  \<open>getDataBlocks\<close>. Both slice expressions panic out of bounds. Go checks \<open>data[:n]\<close>
  against the capacity of \<open>data\<close>, which \<open>append\<close> may have grown beyond its length by
  an amount the run-time system chooses; the model takes the capacity to be the length,
  so it reports a panic for every \<open>n\<close> beyond the bytes present.
\<close>

definition getDataBlocks :: "block list \<Rightarrow> int \<Rightarrow> int \<Rightarrow> xlError + byte list" where
  "getDataBlocks enBlocks dataBlocks curBlockSize =
     (if dataBlocks < 0 \<or> dataBlocks > int (length enBlocks)
      then Inl (Panic ''slice bounds out of range'')
      else let data = appendBlocks [] (take (nat dataBlocks) enBlocks)
           in if curBlockSize < 0 \<or> curBlockSize > int (length data)
              then Inl (Panic ''slice bounds out of range'')
              else Inr (take (nat curBlockSize) data))"

section \<open>The erasure read path\<close>

subsection \<open>\<open>isSuccessDecodeBlocks\<close> and \<open>isSuccessDataBlocks\<close>\<close>

text \<open>
  The counting loop of \<open>isSuccessDecodeBlocks\<close>, from \<open>index\<close> on, with the two
  counters. \<open>dataBlocks\<close> is a count (\<open>D = N/2\<close>), so it is a natural number here.
\<close>

function countSuccessBlocks :: "block list \<Rightarrow> nat \<Rightarrow> nat \<Rightarrow> nat \<times> nat \<Rightarrow> nat \<times> nat" where
  "countSuccessBlocks enBlocks dataBlocks index (successDataBlocksCount, successParityBlocksCount) =
     (if index < length enBlocks then
        (if enBlocks ! index = None
         then countSuccessBlocks enBlocks dataBlocks (index + 1)
                (successDataBlocksCount, successParityBlocksCount)
         else if index < dataBlocks
         then countSuccessBlocks enBlocks dataBlocks (index + 1)
                (successDataBlocksCount + 1, successParityBlocksCount)
         else countSuccessBlocks enBlocks dataBlocks (index + 1)
                (successDataBlocksCount, successParityBlocksCount + 1))
      else (successDataBlocksCount, successParityBlocksCount))"
  by pat_completeness auto
termination
  by (relation "measure (\<lambda>(enBlocks, dataBlocks, index, c). length enBlocks - index)") auto

declare countSuccessBlocks.simps [simp del]

definition isSuccessDecodeBlocks :: "block list \<Rightarrow> nat \<Rightarrow> bool" where
  "isSuccessDecodeBlocks enBlocks dataBlocks =
     (case countSuccessBlocks enBlocks dataBlocks 0 (0, 0) of
        (successDataBlocksCount, successParityBlocksCount) \<Rightarrow>
          successDataBlocksCount = dataBlocks \<or>
          successDataBlocksCount + successParityBlocksCount \<ge> dataBlocks + 1)"

text \<open>
  \<open>isSuccessDataBlocks\<close> ranges over the slice \<open>enBlocks[:dataBlocks]\<close>, of length
  \<open>n\<close> here; the slice expression panics when \<open>dataBlocks\<close> exceeds \<open>enBlocks\<close>.
\<close>

function countDataBlocks :: "block list \<Rightarrow> nat \<Rightarrow> nat \<Rightarrow> nat \<Rightarrow> nat \<Rightarrow> nat" where
  "countDataBlocks enBlocks n dataBlocks index successDataBlocksCount =
     (if index < n then
        (if enBlocks ! index = None
         then countDataBlocks enBlocks n dataBlocks (index + 1) successDataBlocksCount
         else if index < dataBlocks
         then countDataBlocks enBlocks n dataBlocks (index + 1) (successDataBlocksCount + 1)
         else countDataBlocks enBlocks n dataBlocks (index + 1) successDataBlocksCount)
      else successDataBlocksCount)"
  by pat_completeness auto
termination
  by (relation "measure (\<lambda>(enBlocks, n, dataBlocks, index, c). n - index)") auto

declare countDataBlocks.simps [simp del]

definition isSuccessDataBlocks :: "block list \<Rightarrow> nat \<Rightarrow> xlError + bool" where
  "isSuccessDataBlocks enBlocks dataBlocks =
     (if dataBlocks > length enBlocks then Inl (Panic ''slice bounds out of range'')
      else Inr (countDataBlocks enBlocks (length (take dataBlocks enBlocks)) dataBlocks 0 0
                  \<ge> dataBlocks))"

subsection \<open>\<open>getReadDisks\<close>\<close>

text \<open>The first loop of \<open>getReadDisks\<close>: the disks below \<open>index\<close> that are not \<open>nil\<close>.\<close>

function countReadDisks ::
  "'d option list \<Rightarrow> nat \<Rightarrow> nat \<Rightarrow> nat \<Rightarrow> nat \<times> nat \<Rightarrow> xlError + nat \<times> nat" where
  "countReadDisks orderedDisks index dataBlocks i (dataDisks, parityDisks) =
     (if i < index then
        (if i \<ge> length orderedDisks then Inl (Panic ''index out of range'')
         else if orderedDisks ! i = None
         then countReadDisks orderedDisks index dataBlocks (i + 1) (dataDisks, parityDisks)
         else if i < dataBlocks
         then countReadDisks orderedDisks index dataBlocks (i + 1) (dataDisks + 1, parityDisks)
         else countReadDisks orderedDisks index dataBlocks (i + 1) (dataDisks, parityDisks + 1))
      else Inr (dataDisks, parityDisks))"
  by pat_completeness auto
termination
  by (relation "measure (\<lambda>(orderedDisks, index, dataBlocks, i, c). index - i)") auto

declare countReadDisks.simps [simp del]

text \<open>The second loop: the next disks to read, up to the index \<open>nextIndex\<close> returned.\<close>

function findReadDisks ::
  "'d option list \<Rightarrow> nat \<Rightarrow> nat \<Rightarrow> 'd option list \<Rightarrow> nat \<times> nat \<Rightarrow>
     xlError + 'd option list \<times> nat" where
  "findReadDisks orderedDisks dataBlocks i readDisks (dataDisks, parityDisks) =
     (if i < length orderedDisks then
        (if orderedDisks ! i = None
         then findReadDisks orderedDisks dataBlocks (i + 1) readDisks (dataDisks, parityDisks)
         else
           (let dataDisks = (if i < dataBlocks then dataDisks + 1 else dataDisks);
                parityDisks = (if i < dataBlocks then parityDisks else parityDisks + 1);
                readDisks = readDisks [i := orderedDisks ! i]
            in if dataDisks = dataBlocks then Inr (readDisks, i + 1)
               else if dataDisks + parityDisks = dataBlocks + 1 then Inr (readDisks, i + 1)
               else findReadDisks orderedDisks dataBlocks (i + 1) readDisks
                      (dataDisks, parityDisks)))
      else Inl errXLReadQuorum)"
  by pat_completeness auto
termination
  by (relation "measure (\<lambda>(orderedDisks, dataBlocks, i, readDisks, c).
        length orderedDisks - i)") auto

declare findReadDisks.simps [simp del]

definition getReadDisks ::
  "'d option list \<Rightarrow> nat \<Rightarrow> nat \<Rightarrow> xlError + 'd option list \<times> nat" where
  "getReadDisks orderedDisks index dataBlocks =
     (let readDisks = replicate (length orderedDisks) None
      in case countReadDisks orderedDisks index dataBlocks 0 (0, 0) of
           Inl p \<Rightarrow> Inl p
         | Inr (dataDisks, parityDisks) \<Rightarrow>
             if dataDisks = dataBlocks then Inl errUnexpected
             else if dataDisks + parityDisks \<ge> dataBlocks + 1 then Inl errUnexpected
             else findReadDisks orderedDisks dataBlocks index readDisks (dataDisks, parityDisks))"

subsection \<open>\<open>parallelRead\<close>\<close>

text \<open>
  What one read of \<open>erasureReadFile\<close> sees of the disks, for its fixed volume and path:
  \<open>isValidBlock i d\<close> is the outcome of the checksum comparison for the disk \<open>d\<close> at
  position \<open>i\<close> of the ordered disks, \<open>copyN d off n\<close> the outcome of reading \<open>n\<close> bytes
  at offset \<open>off\<close> from it.
\<close>

record 'd readEnv =
  isValidBlock :: "nat \<Rightarrow> 'd \<Rightarrow> bool"
  copyN :: "'d \<Rightarrow> int \<Rightarrow> int \<Rightarrow> xlError + byte list"

text \<open>
  The slices that the read loop shares and mutates: the ordered disks (a failed disk is
  set to \<open>nil\<close>), the encoded blocks of the current block and the cache \<open>verified\<close> of
  the closure \<open>bitRotVerify\<close>. The fields carry the prefix \<open>rs_\<close>.
\<close>

record 'd readState =
  rs_orderedDisks :: "'d option list"
  rs_enBlocks :: "block list"
  rs_verified :: "bool list"

definition bitRotVerify :: "'d readEnv \<Rightarrow> nat \<Rightarrow> 'd readState \<Rightarrow> bool \<times> 'd readState" where
  "bitRotVerify env diskIndex st =
     (if rs_verified st ! diskIndex then (True, st)
      else
        (let isValid = (case rs_orderedDisks st ! diskIndex of
                          None \<Rightarrow> False
                        | Some disk \<Rightarrow> isValidBlock env diskIndex disk)
         in (isValid, st \<lparr> rs_verified := (rs_verified st) [diskIndex := isValid] \<rparr>)))"

text \<open>
  The body of the goroutine that \<open>parallelRead\<close> starts for the disk at \<open>index\<close>. The
  goroutines write to distinct indices of the shared slices and are all awaited, so
  their joint effect is that of running them one after the other.
\<close>

definition readChunk ::
  "'d readEnv \<Rightarrow> nat \<Rightarrow> 'd \<Rightarrow> int \<Rightarrow> int \<Rightarrow> 'd readState \<Rightarrow> 'd readState" where
  "readChunk env index disk blockOffset curChunkSize st =
     (case bitRotVerify env index st of
        (ok, st) \<Rightarrow>
          if \<not> ok then st \<lparr> rs_orderedDisks := (rs_orderedDisks st) [index := None] \<rparr>
          else
            (case copyN env disk blockOffset curChunkSize of
               Inl err \<Rightarrow> st \<lparr> rs_orderedDisks := (rs_orderedDisks st) [index := None] \<rparr>
             | Inr bytes \<Rightarrow> st \<lparr> rs_enBlocks := (rs_enBlocks st) [index := Some bytes] \<rparr>))"

function parallelReadLoop ::
  "'d readEnv \<Rightarrow> 'd option list \<Rightarrow> int \<Rightarrow> int \<Rightarrow> nat \<Rightarrow> 'd readState \<Rightarrow> 'd readState" where
  "parallelReadLoop env readDisks blockOffset curChunkSize index st =
     (if index < length readDisks then
        (case readDisks ! index of
           None \<Rightarrow> parallelReadLoop env readDisks blockOffset curChunkSize (index + 1) st
         | Some disk \<Rightarrow>
             parallelReadLoop env readDisks blockOffset curChunkSize (index + 1)
               (readChunk env index disk blockOffset curChunkSize st))
      else st)"
  by pat_completeness auto
termination
  by (relation "measure (\<lambda>(env, readDisks, blockOffset, curChunkSize, index, st).
        length readDisks - index)") auto

declare parallelReadLoop.simps [simp del]

definition parallelRead ::
  "'d readEnv \<Rightarrow> 'd option list \<Rightarrow> int \<Rightarrow> int \<Rightarrow> 'd readState \<Rightarrow> 'd readState" where
  "parallelRead env readDisks blockOffset curChunkSize st =
     parallelReadLoop env readDisks blockOffset curChunkSize 0 st"
subsection \<open>The read loop of one block\<close>

text \<open>
  The loop makes progress: \<open>getReadDisks\<close> returns an index beyond the one it was given
  and within the disks, and \<open>parallelRead\<close> keeps the length of the shared slices.
\<close>

lemma findReadDisks_bounds:
  "findReadDisks orderedDisks dataBlocks i readDisks c = Inr (readDisks', nextIndex) \<Longrightarrow>
     i < nextIndex \<and> nextIndex \<le> length orderedDisks"
proof (induction orderedDisks dataBlocks i readDisks c rule: findReadDisks.induct)
  case (1 orderedDisks dataBlocks i readDisks dataDisks parityDisks)
  note p = "1.prems" [unfolded
      findReadDisks.simps [of orderedDisks dataBlocks i readDisks dataDisks parityDisks]]
  from p have lt: "i < length orderedDisks"
    by (simp split: if_splits)
  show ?case
  proof (cases "orderedDisks ! i = None")
    case True
    with p lt have "findReadDisks orderedDisks dataBlocks (i + 1) readDisks
        (dataDisks, parityDisks) = Inr (readDisks', nextIndex)" by simp
    from "1.IH"(1) [OF lt True this] show ?thesis by simp
  next
    case False
    define dd where "dd = (if i < dataBlocks then dataDisks + 1 else dataDisks)"
    define pd where "pd = (if i < dataBlocks then parityDisks else parityDisks + 1)"
    show ?thesis
    proof (cases "dd = dataBlocks \<or> dd + pd = dataBlocks + 1")
      case True
      with p lt False have "nextIndex = i + 1"
        by (auto simp: dd_def pd_def Let_def split: if_splits)
      with lt show ?thesis by simp
    next
      case stop: False
      from stop have a: "dd \<noteq> dataBlocks" and b: "dd + pd \<noteq> dataBlocks + 1" by simp_all
      from p lt False a b
      have "findReadDisks orderedDisks dataBlocks (i + 1) (readDisks [i := orderedDisks ! i])
              (dd, pd) = Inr (readDisks', nextIndex)"
        by (simp add: dd_def pd_def Let_def)
      from "1.IH"(2) [OF lt False dd_def pd_def refl a b this]
      show ?thesis by simp
    qed
  qed
qed

lemma getReadDisks_bounds:
  assumes "getReadDisks orderedDisks index dataBlocks = Inr (readDisks, nextIndex)"
  shows "index < nextIndex \<and> nextIndex \<le> length orderedDisks"
proof -
  from assms obtain c where
    "findReadDisks orderedDisks dataBlocks index (replicate (length orderedDisks) None) c =
       Inr (readDisks, nextIndex)"
    by (auto simp: getReadDisks_def Let_def split: sum.splits if_splits)
  from findReadDisks_bounds [OF this] show ?thesis .
qed

lemma readChunk_lengths:
  "length (rs_orderedDisks (readChunk env index disk blockOffset curChunkSize st)) =
     length (rs_orderedDisks st) \<and>
   length (rs_enBlocks (readChunk env index disk blockOffset curChunkSize st)) =
     length (rs_enBlocks st) \<and>
   length (rs_verified (readChunk env index disk blockOffset curChunkSize st)) =
     length (rs_verified st)"
  by (simp add: readChunk_def bitRotVerify_def Let_def split: sum.splits)

lemma parallelReadLoop_lengths:
  "length (rs_orderedDisks (parallelReadLoop env readDisks blockOffset curChunkSize index st)) =
     length (rs_orderedDisks st) \<and>
   length (rs_enBlocks (parallelReadLoop env readDisks blockOffset curChunkSize index st)) =
     length (rs_enBlocks st) \<and>
   length (rs_verified (parallelReadLoop env readDisks blockOffset curChunkSize index st)) =
     length (rs_verified st)"
proof (induction env readDisks blockOffset curChunkSize index st rule: parallelReadLoop.induct)
  case (1 env readDisks blockOffset curChunkSize index st)
  note eq = parallelReadLoop.simps [of env readDisks blockOffset curChunkSize index st]
  show ?case
  proof (cases "index < length readDisks")
    case False
    then show ?thesis by (simp add: eq)
  next
    case True
    show ?thesis
    proof (cases "readDisks ! index")
      case None
      with True "1.IH"(1) [OF True None] show ?thesis by (simp add: eq)
    next
      case (Some disk)
      with True "1.IH"(2) [OF True Some] show ?thesis by (simp add: eq readChunk_lengths)
    qed
  qed
qed

lemma parallelRead_lengths:
  "length (rs_orderedDisks (parallelRead env readDisks blockOffset curChunkSize st)) =
     length (rs_orderedDisks st) \<and>
   length (rs_enBlocks (parallelRead env readDisks blockOffset curChunkSize st)) =
     length (rs_enBlocks st) \<and>
   length (rs_verified (parallelRead env readDisks blockOffset curChunkSize st)) =
     length (rs_verified st)"
  by (simp add: parallelRead_def parallelReadLoop_lengths)

text \<open>
  The \<open>for\<close> loop of \<open>erasureReadFile\<close> that reads the chunks of one block, from
  \<open>nextIndex\<close> on. It ends with the read state, in which enough blocks are present, or
  with the error that \<open>erasureReadFile\<close> returns.
\<close>

function readLoop ::
  "'d readEnv \<Rightarrow> nat \<Rightarrow> int \<Rightarrow> int \<Rightarrow> nat \<Rightarrow> 'd readState \<Rightarrow> xlError + 'd readState" where
  "readLoop env dataBlocks blockOffset curChunkSize nextIndex st =
     (case getReadDisks (rs_orderedDisks st) nextIndex dataBlocks of
        Inl err \<Rightarrow> Inl err
      | Inr (readDisks, nextIndex') \<Rightarrow>
          (let st' = parallelRead env readDisks blockOffset curChunkSize st
           in if isSuccessDecodeBlocks (rs_enBlocks st') dataBlocks then Inr st'
              else if nextIndex' = length (rs_orderedDisks st') then Inl errXLReadQuorum
              else readLoop env dataBlocks blockOffset curChunkSize nextIndex' st'))"
  by pat_completeness auto
termination
proof (relation "measure (\<lambda>(env, dataBlocks, blockOffset, curChunkSize, nextIndex, st).
        length (rs_orderedDisks st) - nextIndex)", goal_cases)
  case 1
  show ?case by simp
next
  case (2 env dataBlocks blockOffset curChunkSize nextIndex st r readDisks nextIndex' st')
  then have "getReadDisks (rs_orderedDisks st) nextIndex dataBlocks = Inr (readDisks, nextIndex')"
    by simp
  from getReadDisks_bounds [OF this]
  have b: "nextIndex < nextIndex'" "nextIndex' \<le> length (rs_orderedDisks st)" by simp_all
  from 2 have l: "length (rs_orderedDisks st') = length (rs_orderedDisks st)"
    by (simp add: parallelRead_lengths)
  from 2 have "nextIndex' \<noteq> length (rs_orderedDisks st)"
    by (simp add: parallelRead_lengths)
  with b l show ?case by simp
qed

declare readLoop.simps [simp del]

text \<open>
  One block of \<open>erasureReadFile\<close> up to the end of the read loop: \<open>enBlocks\<close> is a fresh
  slice of \<open>nil\<close> entries and \<open>nextIndex\<close> starts at 0; the ordered disks and the cache
  \<open>verified\<close> are as the previous blocks left them.
\<close>

definition readBlock ::
  "'d readEnv \<Rightarrow> nat \<Rightarrow> int \<Rightarrow> int \<Rightarrow> 'd option list \<Rightarrow> bool list \<Rightarrow> xlError + 'd readState" where
  "readBlock env dataBlocks blockOffset curChunkSize orderedDisks verified =
     readLoop env dataBlocks blockOffset curChunkSize 0
       \<lparr> rs_orderedDisks = orderedDisks,
         rs_enBlocks = replicate (length orderedDisks) None,
         rs_verified = verified \<rparr>"

text \<open>
  What the disk at position \<open>i\<close> yields when it is read for the block: \<open>nil\<close> when the
  disk is \<open>nil\<close>, fails the bit-rot check (unless already verified) or fails to read.
  \<open>readableBlocks\<close> is the vector of these outcomes over all positions; it is used to
  state what the loop achieves, not by the code.
\<close>

definition readOutcome :: "'d readEnv \<Rightarrow> int \<Rightarrow> int \<Rightarrow> bool \<Rightarrow> nat \<Rightarrow> 'd option \<Rightarrow> block" where
  "readOutcome env blockOffset curChunkSize isVerified i disk =
     (case disk of
        None \<Rightarrow> None
      | Some d \<Rightarrow>
          if isVerified \<or> isValidBlock env i d
          then (case copyN env d blockOffset curChunkSize of
                  Inl err \<Rightarrow> None
                | Inr bytes \<Rightarrow> Some bytes)
          else None)"

definition readableBlocks ::
  "'d readEnv \<Rightarrow> int \<Rightarrow> int \<Rightarrow> 'd option list \<Rightarrow> bool list \<Rightarrow> block list" where
  "readableBlocks env blockOffset curChunkSize orderedDisks verified =
     map (\<lambda>i. readOutcome env blockOffset curChunkSize (verified ! i) i (orderedDisks ! i))
       [0 ..< length orderedDisks]"

text \<open>The number of entries of a vector that are not \<open>nil\<close>.\<close>

definition present :: "'a option list \<Rightarrow> nat" where
  "present xs = length (filter (\<lambda>x. x \<noteq> None) xs)"

text \<open>
  For the proofs: among the positions below \<open>k\<close> of a vector, the number of data
  positions (below \<open>D\<close>) and of parity positions (from \<open>D\<close> on) that are not \<open>nil\<close>.
\<close>

definition dataCount :: "'a option list \<Rightarrow> nat \<Rightarrow> nat \<Rightarrow> nat" where
  "dataCount xs D k = card {j. j < k \<and> j < length xs \<and> j < D \<and> xs ! j \<noteq> None}"

definition parityCount :: "'a option list \<Rightarrow> nat \<Rightarrow> nat \<Rightarrow> nat" where
  "parityCount xs D k = card {j. j < k \<and> j < length xs \<and> D \<le> j \<and> xs ! j \<noteq> None}"

text \<open>
  The invariant of the read loop, for the proofs. \<open>ods0\<close> and \<open>ver0\<close> are the ordered
  disks and the cache at the start of the block and \<open>full\<close> the outcomes of reading
  every position: below \<open>k\<close> the blocks read are the outcomes and a disk is \<open>nil\<close>
  exactly when its outcome is; from \<open>k\<close> on nothing has been touched.
\<close>

definition loopInv ::
  "'d option list \<Rightarrow> bool list \<Rightarrow> block list \<Rightarrow> nat \<Rightarrow> 'd readState \<Rightarrow> bool" where
  "loopInv ods0 ver0 full k st =
     (length (rs_orderedDisks st) = length ods0 \<and>
      length (rs_enBlocks st) = length ods0 \<and>
      length (rs_verified st) = length ods0 \<and>
      k \<le> length ods0 \<and>
      (\<forall>j < k. rs_enBlocks st ! j = full ! j \<and>
                ((rs_orderedDisks st ! j = None) = (full ! j = None))) \<and>
      (\<forall>j < length ods0. k \<le> j \<longrightarrow>
         rs_enBlocks st ! j = None \<and> rs_orderedDisks st ! j = ods0 ! j \<and>
         rs_verified st ! j = ver0 ! j))"

subsection \<open>\<open>decodeData\<close> and the end of a block\<close>

text \<open>
  The Reed-Solomon codec is an external library (\<open>klauspost/reedsolomon\<close>). Its three
  entry points are parameters: \<open>rs_New\<close> builds a codec for the given shard counts or
  fails, \<open>rs_Reconstruct\<close> fills the \<open>nil\<close> shards in place (here: returns the shard
  vector afterwards) or fails, \<open>rs_Verify\<close> recomputes the parity and reports whether
  it matches, or fails. \<open>decodeData\<close> returns, with its result, the list of the
  library calls it made, in order, so that theorems can speak about them.
\<close>

record 'rs rsLib =
  rs_New :: "nat \<Rightarrow> nat \<Rightarrow> xlError + 'rs"
  rs_Reconstruct :: "'rs \<Rightarrow> block list \<Rightarrow> xlError + block list"
  rs_Verify :: "'rs \<Rightarrow> block list \<Rightarrow> xlError + bool"

datatype rsCall =
    CallNew nat nat
  | CallReconstruct "block list"
  | CallVerify "block list"

definition decodeData ::
  "'rs rsLib \<Rightarrow> block list \<Rightarrow> nat \<Rightarrow> nat \<Rightarrow> rsCall list \<times> (xlError + block list)" where
  "decodeData lib enBlocks dataBlocks parityBlocks =
     (case rs_New lib dataBlocks parityBlocks of
        Inl err \<Rightarrow> ([CallNew dataBlocks parityBlocks], Inl err)
      | Inr rs \<Rightarrow>
          (case rs_Reconstruct lib rs enBlocks of
             Inl err \<Rightarrow>
               ([CallNew dataBlocks parityBlocks, CallReconstruct enBlocks], Inl err)
           | Inr shards \<Rightarrow>
               (case rs_Verify lib rs shards of
                  Inl err \<Rightarrow>
                    ([CallNew dataBlocks parityBlocks, CallReconstruct enBlocks,
                      CallVerify shards], Inl err)
                | Inr ok \<Rightarrow>
                    if \<not> ok
                    then ([CallNew dataBlocks parityBlocks, CallReconstruct enBlocks,
                           CallVerify shards], Inl errVerificationFailed)
                    else ([CallNew dataBlocks parityBlocks, CallReconstruct enBlocks,
                           CallVerify shards], Inr shards))))"

text \<open>
  The part of a block's iteration in \<open>erasureReadFile\<close> after the read loop: decode
  when a data block is missing, then write. \<open>writeDataBlocks\<close> is not among the
  sources; it is a parameter that takes the sink (the writer's state) and returns the
  new sink with the number of bytes written or an error. The result is the list of
  library calls, the sink afterwards, and the error returned by \<open>erasureReadFile\<close> or
  the number of bytes added to \<open>bytesWritten\<close>.
\<close>

definition finishBlock ::
  "'rs rsLib \<Rightarrow> ('w \<Rightarrow> block list \<Rightarrow> nat \<Rightarrow> int \<Rightarrow> int \<Rightarrow> 'w \<times> (xlError + int)) \<Rightarrow>
     'w \<Rightarrow> block list \<Rightarrow> nat \<Rightarrow> nat \<Rightarrow> int \<Rightarrow> int \<Rightarrow>
     rsCall list \<times> 'w \<times> (xlError + int)" where
  "finishBlock lib writeDataBlocks writer enBlocks dataBlocks parityBlocks outOffset outSize =
     (case isSuccessDataBlocks enBlocks dataBlocks of
        Inl p \<Rightarrow> ([], writer, Inl p)
      | Inr allData \<Rightarrow>
          (case (if \<not> allData then decodeData lib enBlocks dataBlocks parityBlocks
                 else ([], Inr enBlocks)) of
             (calls, Inl err) \<Rightarrow> (calls, writer, Inl err)
           | (calls, Inr enBlocks) \<Rightarrow>
               (case writeDataBlocks writer enBlocks dataBlocks outOffset outSize of
                  (writer, Inl err) \<Rightarrow> (calls, writer, Inl err)
                | (writer, Inr n) \<Rightarrow> (calls, writer, Inr n))))"

section \<open>\<open>XL.RenameFile\<close> and \<open>XL.deleteXLFiles\<close>\<close>












section \<open>The tree walker: \<open>listDir\<close> and \<open>treeWalk\<close>\<close>

text \<open>
  \<open>strings.SplitN(marker, "/", 2)\<close> and the computation of \<open>markerDir\<close> and
  \<open>markerBase\<close> at the head of \<open>treeWalk\<close>: the marker is cut at its first slash, which
  stays with \<open>markerDir\<close>.
\<close>

definition splitMarker :: "string \<Rightarrow> string \<times> string" where
  "splitMarker marker =
     (if marker \<noteq> [] then
        (case dropWhile (\<lambda>c. c \<noteq> CHR ''/'') marker of
           [] \<Rightarrow> (marker, [])
         | slash # markerBase \<Rightarrow>
             (takeWhile (\<lambda>c. c \<noteq> CHR ''/'') marker @ slashSeparator, markerBase))
      else ([], []))"

text \<open>
  \<open>sort.Search\<close> of the standard library: binary search for the least index in
  \<open>[0, n)\<close> at which \<open>f\<close> holds.
\<close>

function searchLoop :: "(nat \<Rightarrow> bool) \<Rightarrow> nat \<Rightarrow> nat \<Rightarrow> nat" where
  "searchLoop f i j =
     (if i < j then
        (let h = (i + j) div 2
         in if \<not> f h then searchLoop f (h + 1) j else searchLoop f i h)
      else i)"
  by pat_completeness auto
termination
  by (relation "measure (\<lambda>(f, i, j). j - i)") auto

declare searchLoop.simps [simp del]

definition Search :: "nat \<Rightarrow> (nat \<Rightarrow> bool) \<Rightarrow> nat" where
  "Search n f = searchLoop f 0 n"

text \<open>
  What a walk sees of the disks. \<open>quorumDisks dir\<close> is the result of
  \<open>getLoadBalancedQuorumDisks\<close> (not among the sources) at the call that lists \<open>dir\<close>;
  \<open>walkListDir\<close> is \<open>disk.ListDir\<close>; \<open>isLeaf\<close> and \<open>walkPathJoin\<close> stand for the
  argument \<open>isLeaf\<close> and for \<open>pathJoin\<close> (not among the sources); \<open>sendOk k\<close> tells
  whether the consumer takes the \<open>k\<close>-th result before the send times out.
\<close>

record 'd walkEnv =
  quorumDisks :: "string \<Rightarrow> 'd option list"
  walkListDir :: "'d \<Rightarrow> string \<Rightarrow> string \<Rightarrow> xlError + string list"
  isLeaf :: "string \<Rightarrow> string \<Rightarrow> bool"
  walkPathJoin :: "string \<Rightarrow> string \<Rightarrow> string"
  sendOk :: "nat \<Rightarrow> bool"

text \<open>
  \<open>listDir\<close>: the first disk that is not \<open>nil\<close> decides. Its entries are blanked when
  the filter rejects them, leaf directories lose their trailing slash, the slice is
  sorted with \<open>sort.Strings\<close> and the blanks, which sort first, are cut off. When every
  disk is \<open>nil\<close> the result is \<open>nil\<close> with a \<open>nil\<close> error.
\<close>

definition fixEntry :: "'d walkEnv \<Rightarrow> string \<Rightarrow> string \<Rightarrow> (string \<Rightarrow> bool) \<Rightarrow> string \<Rightarrow> string" where
  "fixEntry env bucket prefixDir filterFn entry =
     (if filterFn entry then []
      else if HasSuffix entry slashSeparator \<and>
              isLeaf env bucket (walkPathJoin env prefixDir entry)
      then TrimSuffix entry slashSeparator
      else entry)"

fun listDirLoop ::
  "'d walkEnv \<Rightarrow> string \<Rightarrow> string \<Rightarrow> (string \<Rightarrow> bool) \<Rightarrow> 'd option list \<Rightarrow>
     xlError + string list" where
  "listDirLoop env bucket prefixDir filterFn [] = Inr []"
| "listDirLoop env bucket prefixDir filterFn (None # disks) =
     listDirLoop env bucket prefixDir filterFn disks"
| "listDirLoop env bucket prefixDir filterFn (Some disk # disks) =
     (case walkListDir env disk bucket prefixDir of
        Inl err \<Rightarrow> Inl err
      | Inr entries \<Rightarrow>
          (let entries = map (fixEntry env bucket prefixDir filterFn) entries;
               entries = sort entries;
               entries = dropWhile (\<lambda>e. e = []) entries
           in Inr entries))"

definition listDir ::
  "'d walkEnv \<Rightarrow> string \<Rightarrow> string \<Rightarrow> (string \<Rightarrow> bool) \<Rightarrow> xlError + string list" where
  "listDir env bucket prefixDir filterFn =
     listDirLoop env bucket prefixDir filterFn (quorumDisks env prefixDir)"

text \<open>
  A result sent on the walker's channel, and the state of a walk: the counter \<open>count\<close>,
  the results published so far and the walker's \<open>timedOut\<close> flag. The fields carry the
  prefixes \<open>twr_\<close> and \<open>ws_\<close>.
\<close>

record treeWalkResult =
  twr_entry :: string
  twr_err :: "xlError option"
  twr_end :: bool

record walkState =
  ws_count :: int
  ws_out :: "treeWalkResult list"
  ws_timedOut :: bool

text \<open>The closure \<open>send\<close> of \<open>startTreeWalk\<close>.\<close>

definition send :: "'d walkEnv \<Rightarrow> treeWalkResult \<Rightarrow> walkState \<Rightarrow> bool \<times> walkState" where
  "send env walkResult st =
     (let walkResult = (if ws_count st = 0 then walkResult \<lparr> twr_end := True \<rparr> else walkResult)
      in if sendOk env (length (ws_out st))
         then (True, st \<lparr> ws_out := ws_out st @ [walkResult] \<rparr>)
         else (False, st \<lparr> ws_timedOut := True \<rparr>))"

text \<open>
  The loop of \<open>treeWalk\<close> over the entries that remain after the seek, from position
  \<open>i\<close>. \<open>walk\<close> is the recursive call of \<open>treeWalk\<close> for a subdirectory and its marker.
  A result \<open>None\<close> means that the walk was cut off by the depth bound of \<open>treeWalk\<close>
  below; \<open>Some b\<close> is the boolean that the Go function returns.
\<close>

fun walkEntries ::
  "'d walkEnv \<Rightarrow> (string \<Rightarrow> string \<Rightarrow> walkState \<Rightarrow> bool option \<times> walkState) \<Rightarrow>
     string \<Rightarrow> string \<Rightarrow> string \<Rightarrow> bool \<Rightarrow> nat \<Rightarrow> string list \<Rightarrow> walkState \<Rightarrow>
     bool option \<times> walkState" where
  "walkEntries env walk prefixDir markerDir markerBase recursive i [] st = (Some True, st)"
| "walkEntries env walk prefixDir markerDir markerBase recursive i (entry # entries) st =
     (if i = 0 \<and> markerDir = entry \<and> \<not> recursive
      then walkEntries env walk prefixDir markerDir markerBase recursive (i + 1) entries
             (st \<lparr> ws_count := ws_count st - 1 \<rparr>)
      else if i = 0 \<and> markerDir = entry \<and> recursive \<and> \<not> HasSuffix entry slashSeparator
      then walkEntries env walk prefixDir markerDir markerBase recursive (i + 1) entries
             (st \<lparr> ws_count := ws_count st - 1 \<rparr>)
      else if recursive \<and> HasSuffix entry slashSeparator
      then
        (let markerArg = (if entry = markerDir then markerBase else []);
             st = st \<lparr> ws_count := ws_count st - 1 \<rparr>
         in case walk (walkPathJoin env prefixDir entry) markerArg st of
              (Some True, st) \<Rightarrow>
                walkEntries env walk prefixDir markerDir markerBase recursive (i + 1) entries st
            | (Some False, st) \<Rightarrow> (Some False, st)
            | (None, st) \<Rightarrow> (None, st))
      else
        (let st = st \<lparr> ws_count := ws_count st - 1 \<rparr>
         in case send env \<lparr> twr_entry = walkPathJoin env prefixDir entry,
                             twr_err = None, twr_end = False \<rparr> st of
              (True, st) \<Rightarrow>
                walkEntries env walk prefixDir markerDir markerBase recursive (i + 1) entries st
            | (False, st) \<Rightarrow> (Some False, st)))"

text \<open>
  \<open>treeWalk\<close>. The Go function recurses into every directory it meets, as deep as the
  tree on the disks is; the first argument bounds the depth of the recursion, and the
  result \<open>None\<close> says that the bound was reached.
\<close>

fun treeWalk ::
  "nat \<Rightarrow> 'd walkEnv \<Rightarrow> string \<Rightarrow> string \<Rightarrow> string \<Rightarrow> string \<Rightarrow> bool \<Rightarrow> walkState \<Rightarrow>
     bool option \<times> walkState" where
  "treeWalk 0 env bucket prefixDir entryPrefixMatch marker recursive st = (None, st)"
| "treeWalk (Suc depth) env bucket prefixDir entryPrefixMatch marker recursive st =
     (case splitMarker marker of
        (markerDir, markerBase) \<Rightarrow>
          (case listDir env bucket prefixDir (\<lambda>entry. \<not> HasPrefix entry entryPrefixMatch) of
             Inl err \<Rightarrow>
               (case send env \<lparr> twr_entry = [], twr_err = Some err, twr_end = False \<rparr> st of
                  (ok, st) \<Rightarrow> (Some False, st))
           | Inr entries \<Rightarrow>
               if length entries = 0 then (Some True, st)
               else
                 (let idx = Search (length entries) (\<lambda>i. entries ! i \<ge> markerDir);
                      entries = drop idx entries;
                      st = st \<lparr> ws_count := ws_count st + int (length entries) \<rparr>
                  in walkEntries env
                       (\<lambda>dir markerArg st.
                          treeWalk depth env bucket dir [] markerArg recursive st)
                       prefixDir markerDir markerBase recursive 0 entries st)))"

text \<open>The entries published by a walk: the results that carry no error.\<close>

definition published :: "walkState \<Rightarrow> string list" where
  "published st = map twr_entry (filter (\<lambda>r. twr_err r = None) (ws_out st))"

text \<open>
  What the theorems assume of the disks: a directory listing holds names, each a
  non-empty string without slash, a directory's name followed by one slash, and no two
  entries of a listing have the same name.
\<close>

definition entryName :: "string \<Rightarrow> string" where
  "entryName e = TrimSuffix e slashSeparator"

definition validEntry :: "string \<Rightarrow> bool" where
  "validEntry e = (entryName e \<noteq> [] \<and> CHR ''/'' \<notin> set (entryName e))"

definition validListings :: "'d walkEnv \<Rightarrow> bool" where
  "validListings env =
     (\<forall>disk bucket dir entries.
        walkListDir env disk bucket dir = Inr entries \<longrightarrow>
          (\<forall>e \<in> set entries. validEntry e) \<and> distinct (map entryName entries))"

section \<open>Theorems\<close>

subsection \<open>Disk-count validation\<close>

lemma checkSufficientDisks_cases:
  "checkSufficientDisks disks =
     (if length disks > 16 then Some errXLMaxDisks
      else if length disks < 6 then Some errXLMinDisks
      else if odd (length disks) then Some errXLNumDisks
      else None)"
  by (simp add: checkSufficientDisks_def maxErasureBlocks_def minErasureBlocks_def
      isEven_def Let_def even_iff_mod_2_eq_zero)

text \<open>
  Claim C7. \<open>checkSufficientDisks\<close> returns \<open>nil\<close> exactly when the number of disks is
  even and between 6 and 16 inclusive. More than 16 disks give \<open>errXLMaxDisks\<close>, fewer
  than 6 give \<open>errXLMinDisks\<close>, an odd count within 6..16 gives \<open>errXLNumDisks\<close> (the
  checks run in this order, so an odd count outside the range reports the range error).
  \<open>newXLObjects\<close> runs the check first: whenever it reports an error, construction
  fails with that error whatever the disk I/O of the bootstrap would have returned.
\<close>

theorem checkSufficientDisks_spec:
  "(checkSufficientDisks disks = None \<longleftrightarrow>
      even (length disks) \<and> 6 \<le> length disks \<and> length disks \<le> 16) \<and>
   (16 < length disks \<longrightarrow> checkSufficientDisks disks = Some errXLMaxDisks) \<and>
   (length disks < 6 \<longrightarrow> checkSufficientDisks disks = Some errXLMinDisks) \<and>
   (6 \<le> length disks \<and> length disks \<le> 16 \<and> odd (length disks) \<longrightarrow>
      checkSufficientDisks disks = Some errXLNumDisks) \<and>
   (\<forall>err. checkSufficientDisks disks = Some err \<longrightarrow>
      (\<forall>bootstrap :: string list \<Rightarrow> xlError + 'd option list.
         newXLObjects bootstrap disks = Inl err))"
  by (auto simp: checkSufficientDisks_cases newXLObjects_def)

theorem checkSufficientDisks_spec_witness:
  "checkSufficientDisks (replicate 17 ''/mnt/backend'') = Some errXLMaxDisks \<and>
   checkSufficientDisks (replicate 3 ''/mnt/backend'') = Some errXLMinDisks \<and>
   checkSufficientDisks (replicate 11 ''/mnt/backend'') = Some errXLNumDisks \<and>
   checkSufficientDisks (replicate 12 ''/mnt/backend'') = None \<and>
   newXLObjects (\<lambda>ds. Inr (replicate (length ds) (None :: unit option)))
     (replicate 11 ''/mnt/backend'') = Inl errXLNumDisks"
proof -
  note odd11 = checkSufficientDisks_spec [where 'd = unit, of "replicate 11 ''/mnt/backend''"]
  have a: "checkSufficientDisks (replicate 17 ''/mnt/backend'') = Some errXLMaxDisks"
    using checkSufficientDisks_spec [of "replicate 17 ''/mnt/backend''"] by auto
  have b: "checkSufficientDisks (replicate 3 ''/mnt/backend'') = Some errXLMinDisks"
    using checkSufficientDisks_spec [of "replicate 3 ''/mnt/backend''"] by auto
  have c: "checkSufficientDisks (replicate 11 ''/mnt/backend'') = Some errXLNumDisks"
    using odd11 by auto
  have d: "checkSufficientDisks (replicate 12 ''/mnt/backend'') = None"
    using checkSufficientDisks_spec [of "replicate 12 ''/mnt/backend''"] by auto
  have e: "newXLObjects (\<lambda>ds. Inr (replicate (length ds) (None :: unit option)))
     (replicate 11 ''/mnt/backend'') = Inl errXLNumDisks"
    using odd11 c by blast
  show ?thesis using a b c d e by simp
qed

subsection \<open>Quorums set by the two constructors\<close>

lemma newXLObjects_quorums:
  assumes "newXLObjects bootstrap disks = Inr xl"
  shows "readQuorum xl = length (storageDisks xl) div 2 + 1"
    and "writeQuorum xl = length (storageDisks xl) div 2 + 1"
  using assms
  by (auto simp: newXLObjects_def Let_def split: option.splits sum.splits)

lemma newXL_quorums:
  assumes "newXL rsNew disks = Inr xl"
  shows "XL_storageDisks xl = disks"
    and "XL_readQuorum xl = length disks div 2 + 1"
    and "XL_writeQuorum xl = min (length disks div 2 + 3) (length disks)"
  using assms
  by (auto simp: newXL_def Let_def min_def split: sum.splits if_splits)

text \<open>
  Claim C4, as stated, fails on \<open>newXL\<close>: over six disks the storage layer gets the
  write quorum 6, not \<open>6 div 2 + 1 = 4\<close>.
\<close>

theorem newXL_writeQuorum_counterexample:
  "newXL (\<lambda>d p. Inr ()) (replicate 6 (Some ())) =
     Inr \<lparr> ReedSolomon = Some (), DataBlocks = 3, ParityBlocks = 3,
           XL_storageDisks = replicate 6 (Some ()),
           XL_readQuorum = 4, XL_writeQuorum = 6 \<rparr> \<and>
   (6::nat) \<noteq> 6 div 2 + 1"
  by (simp add: newXL_def Let_def)

text \<open>
  Claim C4, amended. An object layer built by \<open>newXLObjects\<close> over \<open>N\<close> storage disks
  has read quorum and write quorum \<open>N div 2 + 1\<close>. A storage layer built by \<open>newXL\<close>
  over \<open>N\<close> disks has read quorum \<open>N div 2 + 1\<close> and write quorum \<open>N div 2 + 3\<close>,
  capped at \<open>N\<close>.
\<close>

theorem constructors_quorums:
  "(newXLObjects bootstrap disks = Inr xlo \<longrightarrow>
      readQuorum xlo = length (storageDisks xlo) div 2 + 1 \<and>
      writeQuorum xlo = length (storageDisks xlo) div 2 + 1) \<and>
   (newXL rsNew sdisks = Inr xl \<longrightarrow>
      XL_readQuorum xl = length (XL_storageDisks xl) div 2 + 1 \<and>
      XL_writeQuorum xl =
        min (length (XL_storageDisks xl) div 2 + 3) (length (XL_storageDisks xl)))"
  using newXLObjects_quorums [of bootstrap disks xlo] newXL_quorums [of rsNew sdisks xl]
  by simp

theorem constructors_quorums_witness:
  "newXLObjects (\<lambda>ds. Inr (replicate 8 (Some ()))) (replicate 8 ''/mnt/backend'') =
     Inr \<lparr> physicalDisks = replicate 8 ''/mnt/backend'',
           storageDisks = replicate 8 (Some ()),
           xl_dataBlocks = 4, xl_parityBlocks = 4, readQuorum = 5, writeQuorum = 5 \<rparr> \<and>
   newXL (\<lambda>d p. Inr ()) (replicate 8 (Some ())) =
     Inr \<lparr> ReedSolomon = Some (), DataBlocks = 4, ParityBlocks = 4,
           XL_storageDisks = replicate 8 (Some ()),
           XL_readQuorum = 5, XL_writeQuorum = 7 \<rparr> \<and>
   readQuorum \<lparr> physicalDisks = replicate 8 ''/mnt/backend'',
           storageDisks = replicate 8 (Some ()),
           xl_dataBlocks = 4, xl_parityBlocks = 4, readQuorum = 5, writeQuorum = 5 \<rparr> = 8 div 2 + 1 \<and>
   XL_writeQuorum \<lparr> ReedSolomon = Some (), DataBlocks = 4, ParityBlocks = 4,
           XL_storageDisks = replicate 8 (Some ()),
           XL_readQuorum = 5, XL_writeQuorum = 7 \<rparr> = min (8 div 2 + 3) 8"
proof -
  have a: "newXLObjects (\<lambda>ds. Inr (replicate 8 (Some ()))) (replicate 8 ''/mnt/backend'') =
     Inr \<lparr> physicalDisks = replicate 8 ''/mnt/backend'',
           storageDisks = replicate 8 (Some ()),
           xl_dataBlocks = 4, xl_parityBlocks = 4, readQuorum = 5, writeQuorum = 5 \<rparr>"
    by (simp add: newXLObjects_def checkSufficientDisks_cases Let_def)
  have b: "newXL (\<lambda>d p. Inr ()) (replicate 8 (Some ())) =
     Inr \<lparr> ReedSolomon = Some (), DataBlocks = 4, ParityBlocks = 4,
           XL_storageDisks = replicate 8 (Some ()),
           XL_readQuorum = 5, XL_writeQuorum = 7 \<rparr>"
    by (simp add: newXL_def Let_def)
  from constructors_quorums [of "\<lambda>ds. Inr (replicate 8 (Some ()))"
      "replicate 8 ''/mnt/backend''" _ "\<lambda>d p. Inr ()" "replicate 8 (Some ())", OF ] a b
  show ?thesis by auto
qed

subsection \<open>The walker pool\<close>








subsection \<open>The disks \<open>XL.ListDir\<close> chooses\<close>

lemma Intn_range:
  assumes "Intn raw n = Inr i"
  shows "int i < n"
proof -
  from assms have n: "0 < n" and i: "i = raw mod nat n"
    by (auto simp: Intn_def split: if_splits)
  from n have "raw mod nat n < nat n" by simp
  with i n show ?thesis by linarith
qed

lemma ListDir_loop_selected:
  "\<forall>i \<in> set sel. i + 2 \<le> length (XL_storageDisks xl) \<Longrightarrow>
   \<forall>i \<in> set (fst (ListDir_loop ops rnd xl volume dirPath listErrCount err sel)).
      i + 2 \<le> length (XL_storageDisks xl)"
proof (induction ops rnd xl volume dirPath listErrCount err sel rule: ListDir_loop.induct)
  case (1 ops rnd xl volume dirPath listErrCount err sel)
  show ?case
  proof (cases "listErrCount < length (XL_storageDisks xl)")
    case False
    with "1.prems" show ?thesis by simp
  next
    case True
    show ?thesis
    proof (cases "Intn (rnd listErrCount) (int (length (XL_storageDisks xl)) - 1)")
      case (Inl p)
      with True "1.prems" show ?thesis by simp
    next
      case (Inr randIndex)
      from Intn_range [OF Inr] have r: "randIndex + 2 \<le> length (XL_storageDisks xl)" by simp
      with "1.prems" have sel': "\<forall>i \<in> set (sel @ [randIndex]). i + 2 \<le> length (XL_storageDisks xl)"
        by simp
      from r have inb: "\<not> randIndex \<ge> length (XL_storageDisks xl)" by simp
      show ?thesis
      proof (cases "XL_storageDisks xl ! randIndex")
        case None
        with True Inr inb sel' show ?thesis by simp
      next
        case (Some disk)
        show ?thesis
        proof (cases "diskListDir ops disk volume dirPath")
          case (Inr entries)
          with True \<open>Intn _ _ = Inr randIndex\<close> inb Some sel' show ?thesis by simp
        next
          case (Inl e)
          from "1.IH" [OF True \<open>Intn _ _ = Inr randIndex\<close> inb Some Inl sel']
          show ?thesis
            using True \<open>Intn _ _ = Inr randIndex\<close> inb Some Inl by simp
        qed
      qed
    qed
  qed
qed

text \<open>
  Claim C9. Over \<open>N\<close> storage disks, every index that \<open>XL.ListDir\<close> chooses, on every
  attempt and for every sequence of random draws, is at most \<open>N - 2\<close>; the disk at index
  \<open>N - 1\<close> is never the listing source.
\<close>

theorem XL_ListDir_never_last_disk:
  "(\<forall>i \<in> set (fst (XL_ListDir ops rnd xl volume dirPath)).
      i + 2 \<le> length (XL_storageDisks xl)) \<and>
   length (XL_storageDisks xl) - 1 \<notin> set (fst (XL_ListDir ops rnd xl volume dirPath))"
proof -
  have a: "\<forall>i \<in> set (fst (XL_ListDir ops rnd xl volume dirPath)).
      i + 2 \<le> length (XL_storageDisks xl)"
    using ListDir_loop_selected [of "[]" xl ops rnd volume dirPath 0 None]
    by (simp add: XL_ListDir_def)
  then have "length (XL_storageDisks xl) - 1 \<notin> set (fst (XL_ListDir ops rnd xl volume dirPath))"
    by fastforce
  with a show ?thesis by simp
qed
theorem XL_ListDir_never_last_disk_witness:
  "(let ops = \<lparr> diskListDir = (\<lambda>d v p. Inl (errDisk ''faulty disk'')),
                  diskStatFileOk = (\<lambda>d v p. False),
                  pathJoin = (\<lambda>a b. a @ b),
                  isValidVolname = (\<lambda>v. True) \<rparr>;
        xl = \<lparr> ReedSolomon = Some (), DataBlocks = 3, ParityBlocks = 3,
               XL_storageDisks = [Some (), Some (), Some (), Some (), Some (), Some ()],
               XL_readQuorum = 4, XL_writeQuorum = 6 \<rparr>;
        r = XL_ListDir ops (\<lambda>k. 4 + 3 * k) xl ''bucket'' ''dir''
    in r = ([4, 2, 0, 3, 1, 4], Inl (errDisk ''faulty disk'')) \<and>
       5 \<notin> set (fst r))"
proof -
  define ops :: "unit listOps" where "ops = \<lparr> diskListDir = (\<lambda>d v p. Inl (errDisk ''faulty disk'')),
                  diskStatFileOk = (\<lambda>d v p. False),
                  pathJoin = (\<lambda>a b. a @ b),
                  isValidVolname = (\<lambda>v. True) \<rparr>"
  define xl :: "(unit, unit) XL" where "xl = \<lparr> ReedSolomon = Some (), DataBlocks = 3, ParityBlocks = 3,
               XL_storageDisks = [Some (), Some (), Some (), Some (), Some (), Some ()],
               XL_readQuorum = 4, XL_writeQuorum = 6 \<rparr>"
  have run: "XL_ListDir ops (\<lambda>k. 4 + 3 * k) xl ''bucket'' ''dir'' =
      ([4, 2, 0, 3, 1, 4], Inl (errDisk ''faulty disk''))"
    by (simp add: XL_ListDir_def ops_def xl_def Intn_def)
  have len: "length (XL_storageDisks xl) - 1 = 5" by (simp add: xl_def)
  from XL_ListDir_never_last_disk [of ops "\<lambda>k. 4 + 3 * k" xl "''bucket''" "''dir''"] len
  have "5 \<notin> set (fst (XL_ListDir ops (\<lambda>k. 4 + 3 * k) xl ''bucket'' ''dir''))" by simp
  with run show ?thesis unfolding Let_def ops_def xl_def by simp
qed

subsection \<open>\<open>StorageInfo\<close>\<close>

lemma wrap64_id: "inInt64 x \<Longrightarrow> wrap64 x = x"
  by (simp add: wrap64_def inInt64_def)

lemma collectDisksInfo_set:
  "set (collectDisksInfo getInfo ps acc) = set acc \<union> {info. \<exists>p \<in> set ps. getInfo p = Inr info}"
  by (induction ps arbitrary: acc) (auto split: sum.splits)

lemma collectDisksInfo_reporting:
  "set (collectDisksInfo getInfo (physicalDisks xl) []) = reporting getInfo xl"
  by (simp add: collectDisksInfo_set reporting_def)

lemma reporting_empty:
  "reporting getInfo xl = {} \<longleftrightarrow> (\<forall>p \<in> set (physicalDisks xl). isl (getInfo p))"
proof -
  have "(\<exists>info. getInfo p = Inr info) \<longleftrightarrow> \<not> isl (getInfo p)" for p
    by (cases "getInfo p") auto
  then show ?thesis by (auto simp: reporting_def)
qed

lemma sortsByTotal_set: "sortsByTotal srt \<Longrightarrow> set (srt xs) = set xs"
  by (metis sortsByTotal_def set_mset_mset)

lemma sortsByTotal_head:
  assumes "sortsByTotal srt" and "srt xs = d0 # rest"
  shows "d0 \<in> set xs \<and> (\<forall>d \<in> set xs. Total d0 \<le> Total d)"
proof -
  from assms have s: "set xs = set (d0 # rest)" using sortsByTotal_set by metis
  from assms have "sorted (map Total (d0 # rest))" by (metis sortsByTotal_def)
  then have "\<forall>d \<in> set rest. Total d0 \<le> Total d" by simp
  with s show ?thesis by auto
qed

text \<open>
  Claim C10. \<open>StorageInfo\<close> returns a value only when \<open>disk.GetInfo\<close> succeeds for at
  least one physical disk: when it fails on every disk, \<open>disksInfo[0]\<close> indexes an
  empty slice and the call panics. Otherwise the result is computed from one reporting
  disk whose \<open>Total\<close> is the smallest among the reporting disks: \<open>Total\<close> and \<open>Free\<close>
  are that disk's \<open>Total\<close> and \<open>Free\<close>, each multiplied by the number of storage disks
  (in \<open>int64\<close> arithmetic, hence exactly the products whenever these fit in 64 bits).
\<close>

theorem StorageInfo_spec:
  assumes "sortsByTotal srt"
  shows "((\<forall>p \<in> set (physicalDisks xl). isl (getInfo p)) \<longrightarrow>
            StorageInfo getInfo srt xl = Inl (Panic ''index out of range'')) \<and>
         ((\<exists>p \<in> set (physicalDisks xl). \<not> isl (getInfo p)) \<longrightarrow>
            (\<exists>d \<in> reporting getInfo xl.
               (\<forall>d' \<in> reporting getInfo xl. Total d \<le> Total d') \<and>
               StorageInfo getInfo srt xl =
                 Inr \<lparr> si_Total = wrap64 (Total d * int (length (storageDisks xl))),
                       si_Free = wrap64 (Free d * int (length (storageDisks xl))) \<rparr> \<and>
               (inInt64 (Total d * int (length (storageDisks xl))) \<and>
                inInt64 (Free d * int (length (storageDisks xl))) \<longrightarrow>
                  StorageInfo getInfo srt xl =
                    Inr \<lparr> si_Total = Total d * int (length (storageDisks xl)),
                          si_Free = Free d * int (length (storageDisks xl)) \<rparr>)))"
proof (intro conjI impI)
  assume "\<forall>p \<in> set (physicalDisks xl). isl (getInfo p)"
  then have "reporting getInfo xl = {}" by (simp add: reporting_empty)
  then have "set (srt (collectDisksInfo getInfo (physicalDisks xl) [])) = {}"
    using sortsByTotal_set [OF assms] collectDisksInfo_reporting by metis
  then show "StorageInfo getInfo srt xl = Inl (Panic ''index out of range'')"
    by (simp add: StorageInfo_def Let_def)
next
  assume "\<exists>p \<in> set (physicalDisks xl). \<not> isl (getInfo p)"
  then have ne: "reporting getInfo xl \<noteq> {}" by (simp add: reporting_empty)
  let ?ds = "collectDisksInfo getInfo (physicalDisks xl) []"
  let ?n = "int (length (storageDisks xl))"
  from ne have "set (srt ?ds) \<noteq> {}"
    using sortsByTotal_set [OF assms] collectDisksInfo_reporting by metis
  then obtain d0 rest where s: "srt ?ds = d0 # rest" by (cases "srt ?ds") auto
  from sortsByTotal_head [OF assms s]
  have d0: "d0 \<in> reporting getInfo xl" "\<forall>d' \<in> reporting getInfo xl. Total d0 \<le> Total d'"
    by (simp_all add: collectDisksInfo_reporting)
  from s have r: "StorageInfo getInfo srt xl =
      Inr \<lparr> si_Total = wrap64 (Total d0 * ?n), si_Free = wrap64 (Free d0 * ?n) \<rparr>"
    by (simp add: StorageInfo_def Let_def)
  have "inInt64 (Total d0 * ?n) \<and> inInt64 (Free d0 * ?n) \<longrightarrow>
      StorageInfo getInfo srt xl = Inr \<lparr> si_Total = Total d0 * ?n, si_Free = Free d0 * ?n \<rparr>"
    using r by (simp add: wrap64_id)
  with d0 r show "\<exists>d \<in> reporting getInfo xl.
               (\<forall>d' \<in> reporting getInfo xl. Total d \<le> Total d') \<and>
               StorageInfo getInfo srt xl =
                 Inr \<lparr> si_Total = wrap64 (Total d * ?n), si_Free = wrap64 (Free d * ?n) \<rparr> \<and>
               (inInt64 (Total d * ?n) \<and> inInt64 (Free d * ?n) \<longrightarrow>
                  StorageInfo getInfo srt xl =
                    Inr \<lparr> si_Total = Total d * ?n, si_Free = Free d * ?n \<rparr>)"
    by (intro bexI [of _ d0]) simp_all
qed
lemma sort_key_sortsByTotal: "sortsByTotal (sort_key Total)"
  by (simp add: sortsByTotal_def)

theorem StorageInfo_spec_witness:
  "(let xl = \<lparr> physicalDisks = [''/mnt/d1'', ''/mnt/d2'', ''/mnt/d3''],
               storageDisks = replicate 6 (Some ()),
               xl_dataBlocks = 3, xl_parityBlocks = 3, readQuorum = 4, writeQuorum = 4 \<rparr>;
        getInfo = (\<lambda>p. if p = ''/mnt/d2'' then Inr \<lparr> Total = 100, Free = 40 \<rparr>
                       else if p = ''/mnt/d3'' then Inr \<lparr> Total = 80, Free = 30 \<rparr>
                       else Inl (errDisk ''no such disk''))
    in StorageInfo (\<lambda>p. Inl (errDisk ''no such disk'')) (sort_key Total) xl =
         Inl (Panic ''index out of range'') \<and>
       StorageInfo getInfo (sort_key Total) xl = Inr \<lparr> si_Total = 480, si_Free = 180 \<rparr>)"
proof -
  define xl :: "unit xlObjects" where "xl = \<lparr> physicalDisks = [''/mnt/d1'', ''/mnt/d2'', ''/mnt/d3''],
               storageDisks = replicate 6 (Some ()),
               xl_dataBlocks = 3, xl_parityBlocks = 3, readQuorum = 4, writeQuorum = 4 \<rparr>"
  define getInfo where "getInfo = (\<lambda>p. if p = ''/mnt/d2'' then Inr \<lparr> Total = 100, Free = 40 \<rparr>
                       else if p = ''/mnt/d3'' then Inr \<lparr> Total = 80, Free = 30 \<rparr>
                       else Inl (errDisk ''no such disk''))"
  have a: "StorageInfo (\<lambda>p. Inl (errDisk ''no such disk'')) (sort_key Total) xl =
         Inl (Panic ''index out of range'')"
    using StorageInfo_spec [OF sort_key_sortsByTotal, of xl "\<lambda>p. Inl (errDisk ''no such disk'')"]
    by simp
  have rep: "reporting getInfo xl = {\<lparr> Total = 100, Free = 40 \<rparr>, \<lparr> Total = 80, Free = 30 \<rparr>}"
    by (auto simp: reporting_def xl_def getInfo_def)
  have ex: "\<exists>p \<in> set (physicalDisks xl). \<not> isl (getInfo p)"
    by (simp add: xl_def getInfo_def)
  from StorageInfo_spec [OF sort_key_sortsByTotal, of xl getInfo] ex
  obtain d where d: "d \<in> reporting getInfo xl" "\<forall>d' \<in> reporting getInfo xl. Total d \<le> Total d'"
    "StorageInfo getInfo (sort_key Total) xl =
       Inr \<lparr> si_Total = wrap64 (Total d * int (length (storageDisks xl))),
             si_Free = wrap64 (Free d * int (length (storageDisks xl))) \<rparr>"
    by blast
  from d(1,2) rep have "d = \<lparr> Total = 80, Free = 30 \<rparr>" by auto
  with d(3) have b: "StorageInfo getInfo (sort_key Total) xl = Inr \<lparr> si_Total = 480, si_Free = 180 \<rparr>"
    by (simp add: xl_def wrap64_def)
  from a b show ?thesis unfolding Let_def xl_def getInfo_def by simp
qed
subsection \<open>Block geometry\<close>

lemma ceiling_div:
  fixes L D :: int
  assumes "0 < D"
  shows "\<lceil>real_of_int L / real_of_int D\<rceil> = (L + D - 1) div D"
proof -
  define q where "q = (L + D - 1) div D"
  define r where "r = (L + D - 1) mod D"
  have e: "q * D + r = L + D - 1" unfolding q_def r_def by simp
  have m: "0 \<le> r" "r < D" using assms unfolding r_def by simp_all
  have "(q - 1) * D = q * D - D" by (simp add: left_diff_distrib)
  with e m have lo: "(q - 1) * D < L" and hi: "L \<le> q * D" by linarith+
  from lo have "real_of_int ((q - 1) * D) < real_of_int L" by (simp only: of_int_less_iff)
  then have a: "real_of_int q - 1 < real_of_int L / real_of_int D"
    using assms by (simp add: pos_less_divide_eq)
  from hi have "real_of_int L \<le> real_of_int (q * D)" by (simp only: of_int_le_iff)
  then have b: "real_of_int L / real_of_int D \<le> real_of_int q"
    using assms by (simp add: pos_divide_le_eq)
  from a b have "\<lceil>real_of_int L / real_of_int D\<rceil> = q" by (rule ceiling_unique)
  then show ?thesis by (simp add: q_def)
qed

lemma tdiv_nonneg: "0 \<le> a \<Longrightarrow> 0 < b \<Longrightarrow> tdiv a b = a div b"
  by (cases "a = 0") (simp_all add: tdiv_def)

lemma getEncodedBlockLen_ceiling:
  assumes "0 \<le> L" and "0 < D" and "L + D < 2 ^ 63"
  shows "getEncodedBlockLen L D = Inr \<lceil>real_of_int L / real_of_int D\<rceil>"
proof -
  from assms have s: "inInt64 (L + D)" "inInt64 (L + D - 1)" by (simp_all add: inInt64_def)
  from assms have n: "0 \<le> L + D - 1" by simp
  have "0 \<le> (L + D - 1) div D" using n assms(2) by (simp add: pos_imp_zdiv_nonneg_iff)
  moreover have "(L + D - 1) div D \<le> L + D - 1"
    using zdiv_mono2 [of "L + D - 1" 1 D] n assms(2) by simp
  ultimately have q: "inInt64 ((L + D - 1) div D)" using s(2) by (simp add: inInt64_def)
  from assms(2) s n q have "getEncodedBlockLen L D = Inr ((L + D - 1) div D)"
    by (simp add: getEncodedBlockLen_def wrap64_id tdiv_nonneg)
  then show ?thesis by (simp add: ceiling_div [OF assms(2)])
qed

lemma appendBlocks_concat: "appendBlocks data bs = data @ concat (map blockBytes bs)"
  by (induction bs arbitrary: data) simp_all

lemma getDataBlocks_take:
  assumes "0 \<le> D" and "D \<le> int (length enBlocks)" and "0 \<le> L"
    and "L \<le> int (length (concat (map blockBytes (take (nat D) enBlocks))))"
  shows "getDataBlocks enBlocks D L =
           Inr (take (nat L) (concat (map blockBytes (take (nat D) enBlocks))))"
  using assms by (simp add: getDataBlocks_def appendBlocks_concat Let_def)

text \<open>
  Claim C5. For a block of \<open>L\<close> content bytes (\<open>0 \<le> L\<close>, with \<open>L + D\<close> within the
  \<open>int64\<close> range, as it is for every \<open>L\<close> up to the block size) and \<open>D > 0\<close> data
  shards, \<open>getEncodedBlockLen L D\<close> is the ceiling of \<open>L / D\<close>. For a shard vector
  whose first \<open>D\<close> entries concatenate to at least \<open>L\<close> bytes, \<open>getDataBlocks\<close> returns
  exactly the first \<open>L\<close> bytes of that concatenation; so when the concatenation is a
  block of \<open>L\<close> bytes followed by padding, it returns the block.
\<close>

theorem block_geometry:
  "(0 \<le> L \<and> 0 < D \<and> L + D < 2 ^ 63 \<longrightarrow>
      getEncodedBlockLen L D = Inr \<lceil>real_of_int L / real_of_int D\<rceil>) \<and>
   (0 \<le> D \<and> D \<le> int (length enBlocks) \<and> 0 \<le> L \<and>
    L \<le> int (length (concat (map blockBytes (take (nat D) enBlocks)))) \<longrightarrow>
      getDataBlocks enBlocks D L =
        Inr (take (nat L) (concat (map blockBytes (take (nat D) enBlocks))))) \<and>
   (0 \<le> D \<and> D \<le> int (length enBlocks) \<and>
    concat (map blockBytes (take (nat D) enBlocks)) = blk @ padding \<longrightarrow>
      getDataBlocks enBlocks D (int (length blk)) = Inr blk)"
proof (intro conjI impI)
  assume "0 \<le> L \<and> 0 < D \<and> L + D < 2 ^ 63"
  then show "getEncodedBlockLen L D = Inr \<lceil>real_of_int L / real_of_int D\<rceil>"
    by (simp add: getEncodedBlockLen_ceiling)
next
  assume "0 \<le> D \<and> D \<le> int (length enBlocks) \<and> 0 \<le> L \<and>
    L \<le> int (length (concat (map blockBytes (take (nat D) enBlocks))))"
  then show "getDataBlocks enBlocks D L =
        Inr (take (nat L) (concat (map blockBytes (take (nat D) enBlocks))))"
    by (simp add: getDataBlocks_take)
next
  assume a: "0 \<le> D \<and> D \<le> int (length enBlocks) \<and>
    concat (map blockBytes (take (nat D) enBlocks)) = blk @ padding"
  then have "getDataBlocks enBlocks D (int (length blk)) =
      Inr (take (nat (int (length blk))) (concat (map blockBytes (take (nat D) enBlocks))))"
    by (intro getDataBlocks_take) simp_all
  with a show "getDataBlocks enBlocks D (int (length blk)) = Inr blk" by simp
qed

theorem block_geometry_witness:
  "getEncodedBlockLen 10 3 = Inr 4 \<and>
   getDataBlocks [Some [1, 2, 3, 4], None, Some [9, 10, 0, 0], Some [7, 7, 7, 7], None, None] 3 6 =
     Inr [1, 2, 3, 4, 9, 10] \<and>
   getDataBlocks [Some [1, 2, 3, 4], Some [5, 6, 7, 8], Some [9, 10, 0, 0],
                  Some [7, 7, 7, 7], None, None] 3 (int (length [1, 2, 3, 4, 5, 6, 7, 8, 9, 10 :: nat])) =
     Inr [1, 2, 3, 4, 5, 6, 7, 8, 9, 10]"
proof -
  have c: "\<lceil>real_of_int 10 / real_of_int 3\<rceil> = (4 :: int)"
    by (simp add: ceiling_div)
  have a: "getEncodedBlockLen 10 3 = Inr 4"
    using block_geometry [of 10 3 "[]" "[]" "[]"] c by simp
  have b: "getDataBlocks [Some [1, 2, 3, 4], None, Some [9, 10, 0, 0], Some [7, 7, 7, 7],
                          None, None] 3 6 = Inr [1, 2, 3, 4, 9, 10]"
    using block_geometry [of 6 3
        "[Some [1, 2, 3, 4], None, Some [9, 10, 0, 0], Some [7, 7, 7, 7], None, None]" "[]" "[]"]
    by (simp add: blockBytes_def)
  have d: "getDataBlocks [Some [1, 2, 3, 4], Some [5, 6, 7, 8], Some [9, 10, 0, 0],
                  Some [7, 7, 7, 7], None, None] 3 (int (length [1, 2, 3, 4, 5, 6, 7, 8, 9, 10 :: nat])) =
     Inr [1, 2, 3, 4, 5, 6, 7, 8, 9, 10]"
    using block_geometry [of 0 3
        "[Some [1, 2, 3, 4], Some [5, 6, 7, 8], Some [9, 10, 0, 0], Some [7, 7, 7, 7], None, None]"
        "[1, 2, 3, 4, 5, 6, 7, 8, 9, 10]" "[0, 0]"]
    by (simp add: blockBytes_def)
  from a b d show ?thesis by (intro conjI)
qed

subsection \<open>Counting the blocks that are present\<close>

lemma dataCount_Suc:
  "dataCount xs D (Suc k) =
     dataCount xs D k + (if k < length xs \<and> k < D \<and> xs ! k \<noteq> None then 1 else 0)"
proof -
  let ?P = "\<lambda>j. j < length xs \<and> j < D \<and> xs ! j \<noteq> None"
  have fin: "finite {j. j < k \<and> ?P j}" by simp
  have "{j. j < Suc k \<and> ?P j} = (if ?P k then insert k {j. j < k \<and> ?P j} else {j. j < k \<and> ?P j})"
    by (auto simp: less_Suc_eq)
  then show ?thesis
    using fin by (simp add: dataCount_def)
qed

lemma parityCount_Suc:
  "parityCount xs D (Suc k) =
     parityCount xs D k + (if k < length xs \<and> D \<le> k \<and> xs ! k \<noteq> None then 1 else 0)"
proof -
  let ?P = "\<lambda>j. j < length xs \<and> D \<le> j \<and> xs ! j \<noteq> None"
  have fin: "finite {j. j < k \<and> ?P j}" by simp
  have "{j. j < Suc k \<and> ?P j} = (if ?P k then insert k {j. j < k \<and> ?P j} else {j. j < k \<and> ?P j})"
    by (auto simp: less_Suc_eq)
  then show ?thesis
    using fin by (simp add: parityCount_def)
qed

lemma dataCount_0 [simp]: "dataCount xs D 0 = 0"
  by (simp add: dataCount_def)

lemma parityCount_0 [simp]: "parityCount xs D 0 = 0"
  by (simp add: parityCount_def)

lemma dataCount_le: "dataCount xs D k \<le> D"
proof -
  have "{j. j < k \<and> j < length xs \<and> j < D \<and> xs ! j \<noteq> None} \<subseteq> {0 ..< D}" by auto
  from card_mono [OF _ this] show ?thesis by (simp add: dataCount_def)
qed

lemma dataCount_full:
  assumes "D \<le> length xs"
  shows "dataCount xs D (length xs) = D \<longleftrightarrow> (\<forall>j < D. xs ! j \<noteq> None)"
proof -
  let ?A = "{j. j < length xs \<and> j < length xs \<and> j < D \<and> xs ! j \<noteq> None}"
  have sub: "?A \<subseteq> {0 ..< D}" by auto
  show ?thesis
  proof
    assume "dataCount xs D (length xs) = D"
    then have "card ?A = card {0 ..< D}" by (simp add: dataCount_def)
    with sub have "?A = {0 ..< D}" by (intro card_subset_eq) simp_all
    then show "\<forall>j < D. xs ! j \<noteq> None" by auto
  next
    assume "\<forall>j < D. xs ! j \<noteq> None"
    with assms have "?A = {0 ..< D}" by auto
    then show "dataCount xs D (length xs) = D" by (simp add: dataCount_def)
  qed
qed

lemma counts_present:
  "dataCount xs D (length xs) + parityCount xs D (length xs) = present xs"
proof -
  define A where "A = {j. j < length xs \<and> j < length xs \<and> j < D \<and> xs ! j \<noteq> None}"
  define B where "B = {j. j < length xs \<and> j < length xs \<and> D \<le> j \<and> xs ! j \<noteq> None}"
  define C where "C = {j. j < length xs \<and> xs ! j \<noteq> None}"
  have dis: "A \<inter> B = {}" unfolding A_def B_def by auto
  have un: "A \<union> B = C" unfolding A_def B_def C_def by auto
  have fin: "finite A" "finite B" unfolding A_def B_def by simp_all
  have "card (A \<union> B) = card A + card B"
    using fin dis by (rule card_Un_disjoint)
  with un have "card A + card B = card C" by simp
  moreover have "present xs = card C"
    unfolding present_def C_def by (rule length_filter_conv_card)
  ultimately show ?thesis
    unfolding dataCount_def parityCount_def A_def B_def by simp
qed

lemma countSuccessBlocks_counts:
  "index \<le> length enBlocks \<Longrightarrow>
   c = (dataCount enBlocks D index, parityCount enBlocks D index) \<Longrightarrow>
   countSuccessBlocks enBlocks D index c =
     (dataCount enBlocks D (length enBlocks), parityCount enBlocks D (length enBlocks))"
proof (induction enBlocks D index c rule: countSuccessBlocks.induct)
  case (1 enBlocks D index d p)
  note eq = countSuccessBlocks.simps [of enBlocks D index d p]
  from "1.prems" have d: "d = dataCount enBlocks D index"
    and p: "p = parityCount enBlocks D index" by simp_all
  show ?case
  proof (cases "index < length enBlocks")
    case False
    then have "countSuccessBlocks enBlocks D index (d, p) = (d, p)" by (simp add: eq)
    moreover from False "1.prems" have "index = length enBlocks" by simp
    ultimately show ?thesis using d p by simp
  next
    case True
    then have le: "index + 1 \<le> length enBlocks" by simp
    show ?thesis
    proof (cases "enBlocks ! index = None")
      case None: True
      from True None have step: "countSuccessBlocks enBlocks D index (d, p) =
          countSuccessBlocks enBlocks D (index + 1) (d, p)" by (simp add: eq)
      from d p True None
      have "(d, p) = (dataCount enBlocks D (index + 1), parityCount enBlocks D (index + 1))"
        by (simp add: dataCount_Suc parityCount_Suc)
      from "1.IH"(1) [OF True None le this] step show ?thesis by simp
    next
      case Some: False
      show ?thesis
      proof (cases "index < D")
        case data: True
        from True Some data have step: "countSuccessBlocks enBlocks D index (d, p) =
            countSuccessBlocks enBlocks D (index + 1) (d + 1, p)" by (auto simp: eq)
        from d p True Some data
        have "(d + 1, p) = (dataCount enBlocks D (index + 1), parityCount enBlocks D (index + 1))"
          by (simp add: dataCount_Suc parityCount_Suc)
        from "1.IH"(2) [OF True Some data le this] step show ?thesis by simp
      next
        case parity: False
        from True Some parity have step: "countSuccessBlocks enBlocks D index (d, p) =
            countSuccessBlocks enBlocks D (index + 1) (d, p + 1)" by (auto simp: eq)
        from d p True Some parity
        have "(d, p + 1) = (dataCount enBlocks D (index + 1), parityCount enBlocks D (index + 1))"
          by (simp add: dataCount_Suc parityCount_Suc)
        from "1.IH"(3) [OF True Some parity le this] step show ?thesis by simp
      qed
    qed
  qed
qed

lemma isSuccessDecodeBlocks_counts:
  "isSuccessDecodeBlocks enBlocks D \<longleftrightarrow>
     dataCount enBlocks D (length enBlocks) = D \<or>
     D + 1 \<le> dataCount enBlocks D (length enBlocks) + parityCount enBlocks D (length enBlocks)"
  using countSuccessBlocks_counts [of 0 enBlocks "(0, 0)" D]
  by (simp add: isSuccessDecodeBlocks_def)

lemma isSuccessDecodeBlocks_iff:
  assumes "D \<le> length enBlocks"
  shows "isSuccessDecodeBlocks enBlocks D \<longleftrightarrow>
           (\<forall>j < D. enBlocks ! j \<noteq> None) \<or> D + 1 \<le> present enBlocks"
  by (simp add: isSuccessDecodeBlocks_counts dataCount_full [OF assms] counts_present)

subsection \<open>\<open>getReadDisks\<close>\<close>

lemma countReadDisks_counts:
  "index \<le> length orderedDisks \<Longrightarrow> i \<le> index \<Longrightarrow>
   c = (dataCount orderedDisks D i, parityCount orderedDisks D i) \<Longrightarrow>
   countReadDisks orderedDisks index D i c =
     Inr (dataCount orderedDisks D index, parityCount orderedDisks D index)"
proof (induction orderedDisks index D i c rule: countReadDisks.induct)
  case (1 orderedDisks index D i d p)
  note eq = countReadDisks.simps [of orderedDisks index D i d p]
  from "1.prems" have d: "d = dataCount orderedDisks D i"
    and p: "p = parityCount orderedDisks D i" by simp_all
  show ?case
  proof (cases "i < index")
    case False
    then have "countReadDisks orderedDisks index D i (d, p) = Inr (d, p)" by (simp add: eq)
    moreover from False "1.prems" have "i = index" by simp
    ultimately show ?thesis using d p by simp
  next
    case True
    with "1.prems" have inb: "\<not> i \<ge> length orderedDisks" and lt: "i < length orderedDisks"
      and le: "i + 1 \<le> index" by simp_all
    show ?thesis
    proof (cases "orderedDisks ! i = None")
      case None: True
      from True inb None have step: "countReadDisks orderedDisks index D i (d, p) =
          countReadDisks orderedDisks index D (i + 1) (d, p)" by (simp add: eq)
      from d p lt None
      have "(d, p) = (dataCount orderedDisks D (i + 1), parityCount orderedDisks D (i + 1))"
        by (simp add: dataCount_Suc parityCount_Suc)
      from "1.IH"(1) [OF True inb None "1.prems"(1) le this] step show ?thesis by simp
    next
      case Some: False
      show ?thesis
      proof (cases "i < D")
        case data: True
        from True inb Some data have step: "countReadDisks orderedDisks index D i (d, p) =
            countReadDisks orderedDisks index D (i + 1) (d + 1, p)" by (auto simp: eq)
        from d p lt Some data
        have "(d + 1, p) = (dataCount orderedDisks D (i + 1), parityCount orderedDisks D (i + 1))"
          by (simp add: dataCount_Suc parityCount_Suc)
        from "1.IH"(2) [OF True inb Some data "1.prems"(1) le this] step show ?thesis by simp
      next
        case parity: False
        from True inb Some parity have step: "countReadDisks orderedDisks index D i (d, p) =
            countReadDisks orderedDisks index D (i + 1) (d, p + 1)" by (auto simp: eq)
        from d p lt Some parity
        have "(d, p + 1) = (dataCount orderedDisks D (i + 1), parityCount orderedDisks D (i + 1))"
          by (simp add: dataCount_Suc parityCount_Suc)
        from "1.IH"(3) [OF True inb Some parity "1.prems"(1) le this] step show ?thesis by simp
      qed
    qed
  qed
qed

lemma findReadDisks_spec:
  "c = (dataCount orderedDisks D i, parityCount orderedDisks D i) \<Longrightarrow>
   i \<le> length orderedDisks \<Longrightarrow>
   dataCount orderedDisks D i \<noteq> D \<Longrightarrow>
   dataCount orderedDisks D i + parityCount orderedDisks D i < D + 1 \<Longrightarrow>
   length readDisks = length orderedDisks \<Longrightarrow>
   (case findReadDisks orderedDisks D i readDisks c of
      Inl e \<Rightarrow>
        e = errXLReadQuorum \<and>
        dataCount orderedDisks D (length orderedDisks) \<noteq> D \<and>
        dataCount orderedDisks D (length orderedDisks) +
          parityCount orderedDisks D (length orderedDisks) < D + 1
    | Inr (readDisks', nextIndex) \<Rightarrow>
        length readDisks' = length orderedDisks \<and>
        (\<forall>j < length orderedDisks.
           readDisks' ! j =
             (if i \<le> j \<and> j < nextIndex \<and> orderedDisks ! j \<noteq> None
              then orderedDisks ! j else readDisks ! j)))"
proof (induction orderedDisks D i readDisks c rule: findReadDisks.induct)
  case (1 orderedDisks D i readDisks dataDisks parityDisks)
  note eq = findReadDisks.simps [of orderedDisks D i readDisks dataDisks parityDisks]
  from "1.prems" have d: "dataDisks = dataCount orderedDisks D i"
    and p: "parityDisks = parityCount orderedDisks D i" by simp_all
  show ?case
  proof (cases "i < length orderedDisks")
    case False
    then have "findReadDisks orderedDisks D i readDisks (dataDisks, parityDisks) =
        Inl errXLReadQuorum" by (simp add: eq)
    moreover from False "1.prems" have "i = length orderedDisks" by simp
    ultimately show ?thesis using "1.prems" by simp
  next
    case lt: True
    then have le: "i + 1 \<le> length orderedDisks" by simp
    show ?thesis
    proof (cases "orderedDisks ! i = None")
      case None: True
      from lt None have step: "findReadDisks orderedDisks D i readDisks (dataDisks, parityDisks) =
          findReadDisks orderedDisks D (i + 1) readDisks (dataDisks, parityDisks)"
        by (simp add: eq)
      from None lt have cnt: "dataCount orderedDisks D (i + 1) = dataCount orderedDisks D i"
        "parityCount orderedDisks D (i + 1) = parityCount orderedDisks D i"
        by (simp_all add: dataCount_Suc parityCount_Suc)
      with d p have c': "(dataDisks, parityDisks) =
          (dataCount orderedDisks D (i + 1), parityCount orderedDisks D (i + 1))" by simp
      from "1.prems" cnt have n1: "dataCount orderedDisks D (i + 1) \<noteq> D"
        and n2: "dataCount orderedDisks D (i + 1) + parityCount orderedDisks D (i + 1) < D + 1"
        by simp_all
      note ih = "1.IH"(1) [OF lt None c' le n1 n2 "1.prems"(5)]
      show ?thesis
      proof (cases "findReadDisks orderedDisks D (i + 1) readDisks (dataDisks, parityDisks)")
        case (Inl e)
        with ih step show ?thesis by simp
      next
        case (Inr r)
        obtain rd' k' where r: "r = (rd', k')" by (cases r)
        from findReadDisks_bounds [of orderedDisks D "i + 1" readDisks _ rd' k'] Inr r
        have k': "i + 1 < k'" by simp
        from ih Inr r have l: "length rd' = length orderedDisks"
          and pt: "\<forall>j < length orderedDisks. rd' ! j =
             (if i + 1 \<le> j \<and> j < k' \<and> orderedDisks ! j \<noteq> None
              then orderedDisks ! j else readDisks ! j)" by simp_all
        have "\<forall>j < length orderedDisks. rd' ! j =
             (if i \<le> j \<and> j < k' \<and> orderedDisks ! j \<noteq> None
              then orderedDisks ! j else readDisks ! j)"
        proof (intro allI impI)
          fix j assume j: "j < length orderedDisks"
          show "rd' ! j = (if i \<le> j \<and> j < k' \<and> orderedDisks ! j \<noteq> None
              then orderedDisks ! j else readDisks ! j)"
          proof (cases "j = i")
            case True
            with pt j None show ?thesis by simp
          next
            case False
            then have "i \<le> j \<longleftrightarrow> i + 1 \<le> j" by auto
            with pt j show ?thesis by simp
          qed
        qed
        with l step Inr r show ?thesis by simp
      qed
    next
      case Some: False
      define dd where "dd = (if i < D then dataDisks + 1 else dataDisks)"
      define pd where "pd = (if i < D then parityDisks else parityDisks + 1)"
      define rd1 where "rd1 = readDisks [i := orderedDisks ! i]"
      from Some lt d p have cnt: "dd = dataCount orderedDisks D (i + 1)"
        "pd = parityCount orderedDisks D (i + 1)"
        by (auto simp: dd_def pd_def dataCount_Suc parityCount_Suc)
      have l1: "length rd1 = length orderedDisks" using "1.prems"(5) by (simp add: rd1_def)
      have rd1: "\<forall>j < length orderedDisks. rd1 ! j =
          (if j = i then orderedDisks ! j else readDisks ! j)"
        using "1.prems"(5) by (simp add: rd1_def nth_list_update)
      show ?thesis
      proof (cases "dd = D \<or> dd + pd = D + 1")
        case True
        with lt Some have "findReadDisks orderedDisks D i readDisks (dataDisks, parityDisks) =
            Inr (rd1, i + 1)"
          by (auto simp: eq dd_def pd_def rd1_def Let_def)
        moreover have "\<forall>j < length orderedDisks. rd1 ! j =
             (if i \<le> j \<and> j < i + 1 \<and> orderedDisks ! j \<noteq> None
              then orderedDisks ! j else readDisks ! j)"
        proof (intro allI impI)
          fix j assume j: "j < length orderedDisks"
          have "i \<le> j \<and> j < i + 1 \<longleftrightarrow> j = i" by auto
          with rd1 j Some show "rd1 ! j = (if i \<le> j \<and> j < i + 1 \<and> orderedDisks ! j \<noteq> None
              then orderedDisks ! j else readDisks ! j)" by auto
        qed
        ultimately show ?thesis using l1 by simp
      next
        case go: False
        then have a: "dd \<noteq> D" and b: "dd + pd \<noteq> D + 1" by simp_all
        from lt Some a b
        have step: "findReadDisks orderedDisks D i readDisks (dataDisks, parityDisks) =
            findReadDisks orderedDisks D (i + 1) rd1 (dd, pd)"
          by (auto simp: eq dd_def pd_def rd1_def Let_def)
        have c': "(dd, pd) =
            (dataCount orderedDisks D (i + 1), parityCount orderedDisks D (i + 1))"
          using cnt by simp
        from a cnt have n1: "dataCount orderedDisks D (i + 1) \<noteq> D" by simp
        have "dd + pd \<le> dataDisks + parityDisks + 1" by (simp add: dd_def pd_def)
        with "1.prems" d p b cnt
        have n2: "dataCount orderedDisks D (i + 1) + parityCount orderedDisks D (i + 1) < D + 1"
          by simp
        have l1': "length (readDisks [i := orderedDisks ! i]) = length orderedDisks"
          using l1 by (simp add: rd1_def)
        note ih = "1.IH"(2) [OF lt Some dd_def pd_def rd1_def a b c' le n1 n2 l1]
        show ?thesis
        proof (cases "findReadDisks orderedDisks D (i + 1) rd1 (dd, pd)")
          case (Inl e)
          with ih step show ?thesis by simp
        next
          case (Inr r)
          obtain rd' k' where r: "r = (rd', k')" by (cases r)
          from findReadDisks_bounds [of orderedDisks D "i + 1" rd1 _ rd' k'] Inr r
          have k': "i + 1 < k'" by simp
          from ih Inr r have l: "length rd' = length orderedDisks"
            and pt: "\<forall>j < length orderedDisks. rd' ! j =
               (if i + 1 \<le> j \<and> j < k' \<and> orderedDisks ! j \<noteq> None
                then orderedDisks ! j else rd1 ! j)" by simp_all
          have "\<forall>j < length orderedDisks. rd' ! j =
               (if i \<le> j \<and> j < k' \<and> orderedDisks ! j \<noteq> None
                then orderedDisks ! j else readDisks ! j)"
          proof (intro allI impI)
            fix j assume j: "j < length orderedDisks"
            show "rd' ! j = (if i \<le> j \<and> j < k' \<and> orderedDisks ! j \<noteq> None
                then orderedDisks ! j else readDisks ! j)"
            proof (cases "j = i")
              case True
              with pt rd1 j Some k' show ?thesis by simp
            next
              case False
              then have "i \<le> j \<longleftrightarrow> i + 1 \<le> j" by auto
              from pt j have "rd' ! j = (if i + 1 \<le> j \<and> j < k' \<and> orderedDisks ! j \<noteq> None
                then orderedDisks ! j else rd1 ! j)" by blast
              moreover from rd1 j False have "rd1 ! j = readDisks ! j" by simp
              ultimately show ?thesis using \<open>(i \<le> j) = (i + 1 \<le> j)\<close> by auto
            qed
          qed
          with l step Inr r show ?thesis by simp
        qed
      qed
    qed
  qed
qed
lemma getReadDisks_spec:
  assumes "index \<le> length orderedDisks"
    and "dataCount orderedDisks D index \<noteq> D"
    and "dataCount orderedDisks D index + parityCount orderedDisks D index < D + 1"
  shows "case getReadDisks orderedDisks index D of
           Inl e \<Rightarrow>
             e = errXLReadQuorum \<and>
             dataCount orderedDisks D (length orderedDisks) \<noteq> D \<and>
             dataCount orderedDisks D (length orderedDisks) +
               parityCount orderedDisks D (length orderedDisks) < D + 1
         | Inr (readDisks, nextIndex) \<Rightarrow>
             index < nextIndex \<and> nextIndex \<le> length orderedDisks \<and>
             length readDisks = length orderedDisks \<and>
             (\<forall>j < length orderedDisks.
                readDisks ! j = (if index \<le> j \<and> j < nextIndex then orderedDisks ! j else None))"
proof -
  let ?rd = "replicate (length orderedDisks) (None :: 'a option)"
  let ?c = "(dataCount orderedDisks D index, parityCount orderedDisks D index)"
  have cnt: "countReadDisks orderedDisks index D 0 (0, 0) = Inr ?c"
    using countReadDisks_counts [OF assms(1), of 0 "(0, 0)" D] by simp
  with assms have g: "getReadDisks orderedDisks index D =
      findReadDisks orderedDisks D index ?rd ?c"
    by (simp add: getReadDisks_def Let_def)
  note f = findReadDisks_spec [OF refl assms(1) assms(2) assms(3), of ?rd]
  show ?thesis
  proof (cases "findReadDisks orderedDisks D index ?rd ?c")
    case (Inl e)
    with f g show ?thesis by simp
  next
    case (Inr r)
    obtain rd' k' where r: "r = (rd', k')" by (cases r)
    from findReadDisks_bounds [of orderedDisks D index ?rd ?c rd' k'] Inr r
    have b: "index < k'" "k' \<le> length orderedDisks" by simp_all
    from f Inr r have l: "length rd' = length orderedDisks"
      and pt: "\<forall>j < length orderedDisks. rd' ! j =
         (if index \<le> j \<and> j < k' \<and> orderedDisks ! j \<noteq> None
          then orderedDisks ! j else ?rd ! j)" by simp_all
    have "\<forall>j < length orderedDisks.
        rd' ! j = (if index \<le> j \<and> j < k' then orderedDisks ! j else None)"
    proof (intro allI impI)
      fix j assume j: "j < length orderedDisks"
      with pt have "rd' ! j = (if index \<le> j \<and> j < k' \<and> orderedDisks ! j \<noteq> None
          then orderedDisks ! j else ?rd ! j)" by blast
      with j show "rd' ! j = (if index \<le> j \<and> j < k' then orderedDisks ! j else None)"
        by auto
    qed
    with b l g Inr r show ?thesis by simp
  qed
qed

subsection \<open>\<open>parallelRead\<close>\<close>

lemma readChunk_other:
  assumes "k \<noteq> index"
  shows "rs_orderedDisks (readChunk env index disk blockOffset curChunkSize st) ! k =
           rs_orderedDisks st ! k"
    and "rs_enBlocks (readChunk env index disk blockOffset curChunkSize st) ! k =
           rs_enBlocks st ! k"
    and "rs_verified (readChunk env index disk blockOffset curChunkSize st) ! k =
           rs_verified st ! k"
  using assms
  by (simp_all add: readChunk_def bitRotVerify_def Let_def split: sum.splits)

lemma readChunk_at:
  assumes "index < length (rs_orderedDisks st)" and "index < length (rs_enBlocks st)"
    and "index < length (rs_verified st)" and "rs_orderedDisks st ! index = Some disk"
  shows "rs_enBlocks (readChunk env index disk blockOffset curChunkSize st) ! index =
           (case readOutcome env blockOffset curChunkSize (rs_verified st ! index) index (Some disk) of
              None \<Rightarrow> rs_enBlocks st ! index
            | Some bytes \<Rightarrow> Some bytes)"
    and "rs_orderedDisks (readChunk env index disk blockOffset curChunkSize st) ! index =
           (if readOutcome env blockOffset curChunkSize (rs_verified st ! index) index (Some disk) = None
            then None else Some disk)"
  using assms
  by (simp_all add: readChunk_def bitRotVerify_def readOutcome_def Let_def split: sum.splits)

lemma parallelReadLoop_spec:
  "length readDisks = n \<Longrightarrow> length (rs_orderedDisks st) = n \<Longrightarrow>
   length (rs_enBlocks st) = n \<Longrightarrow> length (rs_verified st) = n \<Longrightarrow>
   (\<forall>j < n. index \<le> j \<longrightarrow> readDisks ! j \<noteq> None \<longrightarrow> rs_orderedDisks st ! j = readDisks ! j) \<Longrightarrow>
   j < n \<Longrightarrow>
   (if index \<le> j \<and> readDisks ! j \<noteq> None
    then rs_enBlocks (parallelReadLoop env readDisks blockOffset curChunkSize index st) ! j =
           (case readOutcome env blockOffset curChunkSize (rs_verified st ! j) j
                   (rs_orderedDisks st ! j) of
              None \<Rightarrow> rs_enBlocks st ! j
            | Some bytes \<Rightarrow> Some bytes) \<and>
         rs_orderedDisks (parallelReadLoop env readDisks blockOffset curChunkSize index st) ! j =
           (if readOutcome env blockOffset curChunkSize (rs_verified st ! j) j
                 (rs_orderedDisks st ! j) = None
            then None else rs_orderedDisks st ! j)
    else rs_enBlocks (parallelReadLoop env readDisks blockOffset curChunkSize index st) ! j =
           rs_enBlocks st ! j \<and>
         rs_orderedDisks (parallelReadLoop env readDisks blockOffset curChunkSize index st) ! j =
           rs_orderedDisks st ! j \<and>
         rs_verified (parallelReadLoop env readDisks blockOffset curChunkSize index st) ! j =
           rs_verified st ! j)"
proof (induction env readDisks blockOffset curChunkSize index st rule: parallelReadLoop.induct)
  case (1 env readDisks blockOffset curChunkSize index st)
  note eq = parallelReadLoop.simps [of env readDisks blockOffset curChunkSize index st]
  show ?case
  proof (cases "index < length readDisks")
    case False
    then have e: "parallelReadLoop env readDisks blockOffset curChunkSize index st = st"
      by (simp add: eq)
    from False "1.prems" have "\<not> index \<le> j" by simp
    with e show ?thesis by simp
  next
    case True
    show ?thesis
    proof (cases "readDisks ! index")
      case None
      with True have e: "parallelReadLoop env readDisks blockOffset curChunkSize index st =
          parallelReadLoop env readDisks blockOffset curChunkSize (index + 1) st"
        by (simp add: eq)
      have agree: "\<forall>j < n. index + 1 \<le> j \<longrightarrow> readDisks ! j \<noteq> None \<longrightarrow>
          rs_orderedDisks st ! j = readDisks ! j" using "1.prems"(5) by simp
      note ih = "1.IH"(1) [OF True None "1.prems"(1-4) agree "1.prems"(6)]
      have iff: "(index \<le> j \<and> readDisks ! j \<noteq> None) =
          (index + 1 \<le> j \<and> readDisks ! j \<noteq> None)"
        using None by (cases "j = index") auto
      from ih show ?thesis unfolding e iff .
    next
      case (Some disk)
      define st1 where "st1 = readChunk env index disk blockOffset curChunkSize st"
      from True Some have e: "parallelReadLoop env readDisks blockOffset curChunkSize index st =
          parallelReadLoop env readDisks blockOffset curChunkSize (index + 1) st1"
        by (simp add: eq st1_def)
      from True "1.prems" have idx: "index < n" by simp
      from "1.prems"(5) idx Some have od: "rs_orderedDisks st ! index = Some disk" by simp
      have len1: "length (rs_orderedDisks st1) = n" "length (rs_enBlocks st1) = n"
        "length (rs_verified st1) = n"
        using "1.prems"(2-4) by (simp_all add: st1_def readChunk_lengths)
      have other: "rs_orderedDisks st1 ! k = rs_orderedDisks st ! k"
        "rs_enBlocks st1 ! k = rs_enBlocks st ! k"
        "rs_verified st1 ! k = rs_verified st ! k" if "k \<noteq> index" for k
        using that by (simp_all add: st1_def readChunk_other)
      have agree: "\<forall>j < n. index + 1 \<le> j \<longrightarrow> readDisks ! j \<noteq> None \<longrightarrow>
          rs_orderedDisks st1 ! j = readDisks ! j"
        using "1.prems"(5) other(1) by simp
      note ih = "1.IH"(2) [OF True Some "1.prems"(1) len1 [unfolded st1_def]
          agree [unfolded st1_def] "1.prems"(6), folded st1_def]
      show ?thesis
      proof (cases "j = index")
        case True
        have c1: "\<not> (index + 1 \<le> j \<and> readDisks ! j \<noteq> None)" using True by simp
        have c2: "index \<le> j \<and> readDisks ! j \<noteq> None" using True Some by simp
        from ih have u: "rs_enBlocks (parallelReadLoop env readDisks blockOffset curChunkSize
              (index + 1) st1) ! j = rs_enBlocks st1 ! j \<and>
          rs_orderedDisks (parallelReadLoop env readDisks blockOffset curChunkSize
              (index + 1) st1) ! j = rs_orderedDisks st1 ! j \<and>
          rs_verified (parallelReadLoop env readDisks blockOffset curChunkSize
              (index + 1) st1) ! j = rs_verified st1 ! j"
          by (simp only: c1 if_False)
        from idx "1.prems"(2-4) od
        have at: "rs_enBlocks st1 ! index =
           (case readOutcome env blockOffset curChunkSize (rs_verified st ! index) index (Some disk) of
              None \<Rightarrow> rs_enBlocks st ! index
            | Some bytes \<Rightarrow> Some bytes)"
          "rs_orderedDisks st1 ! index =
           (if readOutcome env blockOffset curChunkSize (rs_verified st ! index) index (Some disk) = None
            then None else Some disk)"
          unfolding st1_def by (simp_all add: readChunk_at)
        have g1: "rs_enBlocks (parallelReadLoop env readDisks blockOffset curChunkSize index st) ! index =
           (case readOutcome env blockOffset curChunkSize (rs_verified st ! index) index
                   (rs_orderedDisks st ! index) of
              None \<Rightarrow> rs_enBlocks st ! index
            | Some bytes \<Rightarrow> Some bytes)"
          using u [unfolded True] at(1) od by (simp add: e)
        have g2: "rs_orderedDisks (parallelReadLoop env readDisks blockOffset curChunkSize index st) ! index =
           (if readOutcome env blockOffset curChunkSize (rs_verified st ! index) index
                 (rs_orderedDisks st ! index) = None
            then None else rs_orderedDisks st ! index)"
          using u [unfolded True] at(2) od by (simp add: e)
        from g1 g2 show ?thesis unfolding True
          by (simp only: c2 [unfolded True] if_True simp_thms)
      next
        case False
        then have iff: "(index \<le> j \<and> readDisks ! j \<noteq> None) =
            (index + 1 \<le> j \<and> readDisks ! j \<noteq> None)" by auto
        from ih show ?thesis unfolding e iff other [OF False] .
      qed
    qed
  qed
qed

subsection \<open>The read loop\<close>

lemma readOutcome_nil [simp]: "readOutcome env blockOffset curChunkSize v i None = None"
  by (simp add: readOutcome_def)

lemma length_readableBlocks [simp]:
  "length (readableBlocks env blockOffset curChunkSize ods ver) = length ods"
  by (simp add: readableBlocks_def)

lemma nth_readableBlocks:
  "j < length ods \<Longrightarrow>
   readableBlocks env blockOffset curChunkSize ods ver ! j =
     readOutcome env blockOffset curChunkSize (ver ! j) j (ods ! j)"
  by (simp add: readableBlocks_def)

lemma dataCount_mono:
  assumes "length xs = length ys" and "\<forall>j < length xs. xs ! j \<noteq> None \<longrightarrow> ys ! j \<noteq> None"
  shows "dataCount xs D k \<le> dataCount ys D k"
proof -
  have "{j. j < k \<and> j < length xs \<and> j < D \<and> xs ! j \<noteq> None} \<subseteq>
        {j. j < k \<and> j < length ys \<and> j < D \<and> ys ! j \<noteq> None}"
    using assms by auto
  moreover have "finite {j. j < k \<and> j < length ys \<and> j < D \<and> ys ! j \<noteq> None}" by simp
  ultimately show ?thesis unfolding dataCount_def by (rule card_mono [rotated])
qed

lemma parityCount_mono:
  assumes "length xs = length ys" and "\<forall>j < length xs. xs ! j \<noteq> None \<longrightarrow> ys ! j \<noteq> None"
  shows "parityCount xs D k \<le> parityCount ys D k"
proof -
  have "{j. j < k \<and> j < length xs \<and> D \<le> j \<and> xs ! j \<noteq> None} \<subseteq>
        {j. j < k \<and> j < length ys \<and> D \<le> j \<and> ys ! j \<noteq> None}"
    using assms by auto
  moreover have "finite {j. j < k \<and> j < length ys \<and> D \<le> j \<and> ys ! j \<noteq> None}" by simp
  ultimately show ?thesis unfolding parityCount_def by (rule card_mono [rotated])
qed

lemma isSuccessDecodeBlocks_mono:
  assumes "length xs = length ys" and "\<forall>j < length xs. xs ! j \<noteq> None \<longrightarrow> ys ! j \<noteq> None"
    and "isSuccessDecodeBlocks xs D"
  shows "isSuccessDecodeBlocks ys D"
proof -
  note d = dataCount_mono [OF assms(1,2), of D "length xs"]
  note p = parityCount_mono [OF assms(1,2), of D "length xs"]
  note le = dataCount_le [of ys D "length ys"]
  from assms(3) have "dataCount xs D (length xs) = D \<or>
     D + 1 \<le> dataCount xs D (length xs) + parityCount xs D (length xs)"
    by (simp only: isSuccessDecodeBlocks_counts)
  with d p le assms(1) have "dataCount ys D (length ys) = D \<or>
     D + 1 \<le> dataCount ys D (length ys) + parityCount ys D (length ys)"
    by auto
  then show ?thesis by (simp only: isSuccessDecodeBlocks_counts)
qed

lemma loopInv_counts:
  assumes "loopInv ods0 ver0 full k st"
  shows "dataCount (rs_orderedDisks st) D k = dataCount (rs_enBlocks st) D (length ods0)"
    and "parityCount (rs_orderedDisks st) D k = parityCount (rs_enBlocks st) D (length ods0)"
proof -
  from assms have len: "length (rs_orderedDisks st) = length ods0"
      "length (rs_enBlocks st) = length ods0" "k \<le> length ods0"
    and lo: "\<forall>j < k. rs_enBlocks st ! j = full ! j \<and>
                ((rs_orderedDisks st ! j = None) = (full ! j = None))"
    and hi: "\<forall>j < length ods0. k \<le> j \<longrightarrow> rs_enBlocks st ! j = None"
    by (simp_all add: loopInv_def)
  have iff: "(j < k \<and> rs_orderedDisks st ! j \<noteq> None) = (j < length ods0 \<and> rs_enBlocks st ! j \<noteq> None)"
    if "j < length ods0" for j
  proof (cases "j < k")
    case True
    with lo that show ?thesis by auto
  next
    case False
    with hi that show ?thesis by auto
  qed
  have "{j. j < k \<and> j < length (rs_orderedDisks st) \<and> j < D \<and> rs_orderedDisks st ! j \<noteq> None} =
        {j. j < length ods0 \<and> j < length (rs_enBlocks st) \<and> j < D \<and> rs_enBlocks st ! j \<noteq> None}"
    using iff len by auto
  then show "dataCount (rs_orderedDisks st) D k = dataCount (rs_enBlocks st) D (length ods0)"
    by (simp add: dataCount_def)
  have "{j. j < k \<and> j < length (rs_orderedDisks st) \<and> D \<le> j \<and> rs_orderedDisks st ! j \<noteq> None} =
        {j. j < length ods0 \<and> j < length (rs_enBlocks st) \<and> D \<le> j \<and> rs_enBlocks st ! j \<noteq> None}"
    using iff len by auto
  then show "parityCount (rs_orderedDisks st) D k = parityCount (rs_enBlocks st) D (length ods0)"
    by (simp add: parityCount_def)
qed

lemma loopInv_full_disks:
  assumes "loopInv ods0 ver0 full k st"
    and "full = readableBlocks env blockOffset curChunkSize ods0 ver0"
    and "j < length ods0" and "full ! j \<noteq> None"
  shows "rs_orderedDisks st ! j \<noteq> None"
proof (cases "j < k")
  case True
  with assms(1,4) show ?thesis by (simp add: loopInv_def)
next
  case False
  with assms(1,3) have "rs_orderedDisks st ! j = ods0 ! j" by (simp add: loopInv_def)
  moreover from assms(2,3,4) have "ods0 ! j \<noteq> None"
    by (cases "ods0 ! j") (auto simp: nth_readableBlocks)
  ultimately show ?thesis by simp
qed

lemma loopInv_blocks_full:
  assumes "loopInv ods0 ver0 full k st" and "j < length ods0" and "rs_enBlocks st ! j \<noteq> None"
  shows "full ! j \<noteq> None"
proof (cases "j < k")
  case True
  with assms show ?thesis by (simp add: loopInv_def)
next
  case False
  with assms show ?thesis by (simp add: loopInv_def)
qed

lemma loopInv_step:
  assumes inv: "loopInv ods0 ver0 full k st"
    and full: "full = readableBlocks env blockOffset curChunkSize ods0 ver0"
    and k': "k < k'" "k' \<le> length ods0"
    and lrd: "length readDisks = length ods0"
    and rd: "\<forall>j < length ods0.
        readDisks ! j = (if k \<le> j \<and> j < k' then rs_orderedDisks st ! j else None)"
  shows "loopInv ods0 ver0 full k' (parallelRead env readDisks blockOffset curChunkSize st)"
proof -
  define st' where "st' = parallelRead env readDisks blockOffset curChunkSize st"
  let ?n = "length ods0"
  from inv have len: "length (rs_orderedDisks st) = ?n" "length (rs_enBlocks st) = ?n"
      "length (rs_verified st) = ?n"
    and lo: "\<forall>j < k. rs_enBlocks st ! j = full ! j \<and>
                ((rs_orderedDisks st ! j = None) = (full ! j = None))"
    and hi: "\<forall>j < ?n. k \<le> j \<longrightarrow>
         rs_enBlocks st ! j = None \<and> rs_orderedDisks st ! j = ods0 ! j \<and>
         rs_verified st ! j = ver0 ! j"
    by (simp_all add: loopInv_def)
  have len': "length (rs_orderedDisks st') = ?n" "length (rs_enBlocks st') = ?n"
      "length (rs_verified st') = ?n"
    using len by (simp_all add: st'_def parallelRead_lengths)
  have agree: "\<forall>j < ?n. 0 \<le> j \<longrightarrow> readDisks ! j \<noteq> None \<longrightarrow>
      rs_orderedDisks st ! j = readDisks ! j"
    using rd by auto
  note spec = parallelReadLoop_spec [OF lrd len agree, of _ env blockOffset curChunkSize,
      folded parallelRead_def, folded st'_def]
  have unchanged: "rs_enBlocks st' ! j = rs_enBlocks st ! j \<and>
      rs_orderedDisks st' ! j = rs_orderedDisks st ! j \<and>
      rs_verified st' ! j = rs_verified st ! j"
    if "j < ?n" "readDisks ! j = None" for j
  proof -
    from that(2) have c: "\<not> (0 \<le> j \<and> readDisks ! j \<noteq> None)" by simp
    from spec [OF that(1)] show ?thesis by (simp only: c if_False simp_thms)
  qed
  have changed: "rs_enBlocks st' ! j =
           (case readOutcome env blockOffset curChunkSize (rs_verified st ! j) j
                   (rs_orderedDisks st ! j) of
              None \<Rightarrow> rs_enBlocks st ! j
            | Some bytes \<Rightarrow> Some bytes) \<and>
         rs_orderedDisks st' ! j =
           (if readOutcome env blockOffset curChunkSize (rs_verified st ! j) j
                 (rs_orderedDisks st ! j) = None
            then None else rs_orderedDisks st ! j)"
    if "j < ?n" "readDisks ! j \<noteq> None" for j
  proof -
    from that(2) have c: "0 \<le> j \<and> readDisks ! j \<noteq> None" by simp
    from spec [OF that(1)] show ?thesis by (simp only: c if_True simp_thms)
  qed
  have below: "rs_enBlocks st' ! j = full ! j \<and>
                ((rs_orderedDisks st' ! j = None) = (full ! j = None))" if j: "j < k'" for j
  proof -
    from j k' have jn: "j < ?n" by simp
    show ?thesis
    proof (cases "j < k")
      case True
      with rd jn have "readDisks ! j = None" by simp
      from unchanged [OF jn this] lo True show ?thesis by simp
    next
      case False
      then have kj: "k \<le> j" by simp
      from hi jn kj have h: "rs_enBlocks st ! j = None" "rs_orderedDisks st ! j = ods0 ! j"
        "rs_verified st ! j = ver0 ! j" by simp_all
      from full jn h have f: "full ! j = readOutcome env blockOffset curChunkSize
          (rs_verified st ! j) j (rs_orderedDisks st ! j)"
        by (simp add: nth_readableBlocks)
      from rd jn kj j have r: "readDisks ! j = rs_orderedDisks st ! j" by simp
      show ?thesis
      proof (cases "rs_orderedDisks st ! j")
        case None
        with r have "readDisks ! j = None" by simp
        from unchanged [OF jn this] h None f show ?thesis by simp
      next
        case (Some d)
        with r have "readDisks ! j \<noteq> None" by simp
        from changed [OF jn this] h(1) f [symmetric] Some show ?thesis
          by (cases "full ! j") simp_all
      qed
    qed
  qed
  have above: "rs_enBlocks st' ! j = None \<and> rs_orderedDisks st' ! j = ods0 ! j \<and>
         rs_verified st' ! j = ver0 ! j" if jn: "j < ?n" and kj: "k' \<le> j" for j
  proof -
    from rd jn kj have "readDisks ! j = None" by simp
    from unchanged [OF jn this] hi jn kj k' show ?thesis by simp
  qed
  from len' k' below above show ?thesis
    unfolding st'_def [symmetric] loopInv_def by blast
qed
lemma readLoop_spec:
  "loopInv ods0 ver0 full k st \<Longrightarrow>
   full = readableBlocks env blockOffset curChunkSize ods0 ver0 \<Longrightarrow>
   \<not> isSuccessDecodeBlocks (rs_enBlocks st) D \<Longrightarrow>
   (case readLoop env D blockOffset curChunkSize k st of
      Inl e \<Rightarrow> e = errXLReadQuorum \<and> \<not> isSuccessDecodeBlocks full D
    | Inr st' \<Rightarrow> isSuccessDecodeBlocks (rs_enBlocks st') D \<and> isSuccessDecodeBlocks full D)"
proof (induction env D blockOffset curChunkSize k st rule: readLoop.induct)
  case (1 env D blockOffset curChunkSize k st)
  note eq = readLoop.simps [of env D blockOffset curChunkSize k st]
  note inv = "1.prems"(1) and full = "1.prems"(2) and fail = "1.prems"(3)
  let ?n = "length ods0"
  let ?ods = "rs_orderedDisks st"
  from inv have len: "length ?ods = ?n" "length (rs_enBlocks st) = ?n" "k \<le> ?n"
    by (simp_all add: loopInv_def)
  have lfull: "length full = ?n" using full by simp
  from fail len(2) have nc: "dataCount (rs_enBlocks st) D ?n \<noteq> D"
    "\<not> D + 1 \<le> dataCount (rs_enBlocks st) D ?n + parityCount (rs_enBlocks st) D ?n"
    by (auto simp: isSuccessDecodeBlocks_counts)
  from len(3) len(1) have kl: "k \<le> length ?ods" by simp
  from nc loopInv_counts [OF inv, of D]
  have pre: "dataCount ?ods D k \<noteq> D" "dataCount ?ods D k + parityCount ?ods D k < D + 1"
    by simp_all
  note g = getReadDisks_spec [OF kl pre]
  show ?case
  proof (cases "getReadDisks ?ods k D")
    case (Inl e)
    with g have e: "e = errXLReadQuorum" and c: "dataCount ?ods D (length ?ods) \<noteq> D"
      "dataCount ?ods D (length ?ods) + parityCount ?ods D (length ?ods) < D + 1"
      by simp_all
    have sub: "\<forall>j < length full. full ! j \<noteq> None \<longrightarrow> ?ods ! j \<noteq> None"
      using loopInv_full_disks [OF inv full] lfull by simp
    have "\<not> isSuccessDecodeBlocks full D"
    proof
      assume "isSuccessDecodeBlocks full D"
      then have f: "dataCount full D (length full) = D \<or>
          D + 1 \<le> dataCount full D (length full) + parityCount full D (length full)"
        by (simp only: isSuccessDecodeBlocks_counts)
      have ll: "length full = length ?ods" using lfull len(1) by simp
      note d = dataCount_mono [OF ll sub, of D "length full"]
      note p = parityCount_mono [OF ll sub, of D "length full"]
      from f d p c ll dataCount_le [of ?ods D "length ?ods"] show False by auto
    qed
    with e Inl show ?thesis by (simp add: eq)
  next
    case (Inr r)
    obtain readDisks k' where r: "r = (readDisks, k')" by (cases r)
    define st' where "st' = parallelRead env readDisks blockOffset curChunkSize st"
    from g Inr r len(1) have k': "k < k'" "k' \<le> ?n"
      and lrd: "length readDisks = ?n"
      and rd: "\<forall>j < ?n. readDisks ! j = (if k \<le> j \<and> j < k' then ?ods ! j else None)"
      by simp_all
    have inv': "loopInv ods0 ver0 full k' st'"
      unfolding st'_def by (rule loopInv_step [OF inv full k' lrd rd])
    then have len': "length (rs_orderedDisks st') = ?n" "length (rs_enBlocks st') = ?n"
      by (simp_all add: loopInv_def)
    have up: "\<forall>j < length (rs_enBlocks st'). rs_enBlocks st' ! j \<noteq> None \<longrightarrow> full ! j \<noteq> None"
      using loopInv_blocks_full [OF inv'] len'(2) by simp
    show ?thesis
    proof (cases "isSuccessDecodeBlocks (rs_enBlocks st') D")
      case True
      from isSuccessDecodeBlocks_mono [OF _ up True] len'(2) lfull
      have "isSuccessDecodeBlocks full D" by simp
      with True Inr r show ?thesis by (simp add: eq st'_def Let_def)
    next
      case False
      show ?thesis
      proof (cases "k' = length (rs_orderedDisks st')")
        case True
        with len'(1) have kn: "k' = ?n" by simp
        from inv' kn have "\<forall>j < ?n. rs_enBlocks st' ! j = full ! j"
          by (simp add: loopInv_def)
        with len'(2) lfull have "rs_enBlocks st' = full" by (simp add: nth_equalityI)
        with False have "\<not> isSuccessDecodeBlocks full D" by simp
        with False True Inr r show ?thesis by (simp add: eq st'_def Let_def)
      next
        case more: False
        from False more Inr r have step: "readLoop env D blockOffset curChunkSize k st =
            readLoop env D blockOffset curChunkSize k' st'"
          by (simp add: eq st'_def Let_def)
        from "1.IH" [OF Inr r [symmetric] st'_def False more inv' full False] step
        show ?thesis by simp
      qed
    qed
  qed
qed

lemma loopInv_init:
  "length verified = length orderedDisks \<Longrightarrow>
   loopInv orderedDisks verified full 0
     \<lparr> rs_orderedDisks = orderedDisks,
       rs_enBlocks = replicate (length orderedDisks) None,
       rs_verified = verified \<rparr>"
  by (simp add: loopInv_def)

lemma isSuccessDecodeBlocks_replicate_None:
  "0 < D \<Longrightarrow> \<not> isSuccessDecodeBlocks (replicate n None) D"
proof -
  have "dataCount (replicate n (None :: block)) D n = 0"
    "parityCount (replicate n (None :: block)) D n = 0"
    by (simp_all add: dataCount_def parityCount_def)
  then show "0 < D \<Longrightarrow> \<not> isSuccessDecodeBlocks (replicate n None) D"
    by (simp add: isSuccessDecodeBlocks_counts)
qed

lemma readBlock_spec:
  assumes "0 < D" and "length verified = length orderedDisks"
  shows "case readBlock env D blockOffset curChunkSize orderedDisks verified of
           Inl e \<Rightarrow> e = errXLReadQuorum \<and>
             \<not> isSuccessDecodeBlocks
                 (readableBlocks env blockOffset curChunkSize orderedDisks verified) D
         | Inr st' \<Rightarrow> isSuccessDecodeBlocks (rs_enBlocks st') D \<and>
             isSuccessDecodeBlocks
               (readableBlocks env blockOffset curChunkSize orderedDisks verified) D"
  unfolding readBlock_def
  by (rule readLoop_spec [OF loopInv_init [OF assms(2)] refl])
     (simp add: isSuccessDecodeBlocks_replicate_None [OF assms(1)])

text \<open>
  Claim C1. For every encoded-block vector with at least \<open>D\<close> entries (so for every
  vector of length \<open>N\<close> with \<open>D = N div 2\<close>), \<open>isSuccessDecodeBlocks\<close> holds exactly when
  the first \<open>D\<close> entries are all present or at least \<open>D + 1\<close> entries are present in
  all. The read loop of a block (\<open>D > 0\<close>) always ends; it ends either with a block
  vector for which \<open>isSuccessDecodeBlocks\<close> holds or with the error \<open>errXLReadQuorum\<close>,
  and it ends with the error exactly when the blocks that the disks can deliver, all
  ordered disks taken together, reach neither condition.
\<close>

theorem read_quorum:
  "(D \<le> length enBlocks \<longrightarrow>
      isSuccessDecodeBlocks enBlocks D =
        ((\<forall>j < D. enBlocks ! j \<noteq> None) \<or> D + 1 \<le> present enBlocks)) \<and>
   (0 < D \<and> length verified = length orderedDisks \<longrightarrow>
      (readBlock env D blockOffset curChunkSize orderedDisks verified = Inl errXLReadQuorum \<or>
       (\<exists>st'. readBlock env D blockOffset curChunkSize orderedDisks verified = Inr st' \<and>
              isSuccessDecodeBlocks (rs_enBlocks st') D)) \<and>
      (readBlock env D blockOffset curChunkSize orderedDisks verified = Inl errXLReadQuorum) =
        (\<not> isSuccessDecodeBlocks
             (readableBlocks env blockOffset curChunkSize orderedDisks verified) D))"
proof (intro conjI impI)
  assume "D \<le> length enBlocks"
  then show "isSuccessDecodeBlocks enBlocks D =
        ((\<forall>j < D. enBlocks ! j \<noteq> None) \<or> D + 1 \<le> present enBlocks)"
    by (rule isSuccessDecodeBlocks_iff)
next
  assume a: "0 < D \<and> length verified = length orderedDisks"
  then have s: "case readBlock env D blockOffset curChunkSize orderedDisks verified of
           Inl e \<Rightarrow> e = errXLReadQuorum \<and>
             \<not> isSuccessDecodeBlocks
                 (readableBlocks env blockOffset curChunkSize orderedDisks verified) D
         | Inr st' \<Rightarrow> isSuccessDecodeBlocks (rs_enBlocks st') D \<and>
             isSuccessDecodeBlocks
               (readableBlocks env blockOffset curChunkSize orderedDisks verified) D"
    by (intro readBlock_spec) simp_all
  then show "readBlock env D blockOffset curChunkSize orderedDisks verified = Inl errXLReadQuorum \<or>
       (\<exists>st'. readBlock env D blockOffset curChunkSize orderedDisks verified = Inr st' \<and>
              isSuccessDecodeBlocks (rs_enBlocks st') D)"
    by (cases "readBlock env D blockOffset curChunkSize orderedDisks verified") simp_all
  from s show "(readBlock env D blockOffset curChunkSize orderedDisks verified = Inl errXLReadQuorum) =
        (\<not> isSuccessDecodeBlocks
             (readableBlocks env blockOffset curChunkSize orderedDisks verified) D)"
    by (cases "readBlock env D blockOffset curChunkSize orderedDisks verified") simp_all
qed
theorem read_quorum_witness:
  "(let ods = [Some 0, Some 1, Some 2, Some 3, Some 4, Some (5 :: nat)];
        ver = [False, False, False, False, False, False];
        env = \<lparr> isValidBlock = (\<lambda>i d. d \<noteq> 1),
                 copyN = (\<lambda>d off n. if d = 2 then Inl (errDisk ''read error'') else Inr [d, d]) \<rparr>;
        env' = \<lparr> isValidBlock = (\<lambda>i d. d \<noteq> 1 \<and> d \<noteq> 3),
                  copyN = (\<lambda>d off n. if d = 2 then Inl (errDisk ''read error'') else Inr [d, d]) \<rparr>
    in isSuccessDecodeBlocks [Some [0, 0], None, None, Some [3, 3], Some [4, 4], Some [5, 5]] 3 \<and>
       \<not> isSuccessDecodeBlocks [Some [0, 0], None, None, None, Some [4, 4], Some [5, 5]] 3 \<and>
       readBlock env 3 0 2 ods ver =
         Inr \<lparr> rs_orderedDisks = [Some 0, None, None, Some 3, Some 4, Some 5],
               rs_enBlocks = [Some [0, 0], None, None, Some [3, 3], Some [4, 4], Some [5, 5]],
               rs_verified = [True, False, True, True, True, True] \<rparr> \<and>
       readBlock env' 3 0 2 ods ver = Inl errXLReadQuorum)"
proof -
  define ods where "ods = [Some 0, Some 1, Some 2, Some 3, Some 4, Some (5 :: nat)]"
  define ver where "ver = [False, False, False, False, False, False]"
  define env where "env = \<lparr> isValidBlock = (\<lambda>(i :: nat) (d :: nat). d \<noteq> 1),
      copyN = (\<lambda>d (off :: int) (n :: int).
        if d = 2 then Inl (errDisk ''read error'') else Inr [d, d]) \<rparr>"
  define env' where "env' = \<lparr> isValidBlock = (\<lambda>(i :: nat) (d :: nat). d \<noteq> 1 \<and> d \<noteq> 3),
      copyN = (\<lambda>d (off :: int) (n :: int).
        if d = 2 then Inl (errDisk ''read error'') else Inr [d, d]) \<rparr>"
  define E where "E = [Some [0, 0], None, None, Some [3, 3], Some [4, 4], Some [5 :: nat, 5]]"
  define E' where "E' = [Some [0, 0], None, None, None, Some [4, 4], Some [5 :: nat, 5]]"
  have a: "isSuccessDecodeBlocks E 3"
    using read_quorum [of 3 E "[]" "[]" env 0 2, THEN conjunct1] by (simp add: E_def present_def)
  have "\<not> (\<forall>j < 3. E' ! j \<noteq> None)"
    by (auto simp: E'_def intro: exI [of _ 1])
  then have b: "\<not> isSuccessDecodeBlocks E' 3"
    using read_quorum [of 3 E' "[]" "[]" env 0 2, THEN conjunct1] by (simp add: E'_def present_def)
  have up: "[0 ..< 6] = [0, 1, 2, 3, 4, 5 :: nat]" by (simp add: upt_rec)
  have r: "readableBlocks env' 0 2 ods ver = E'"
    by (simp add: readableBlocks_def readOutcome_def env'_def ods_def ver_def E'_def up)
  have d: "readBlock env' 3 0 2 ods ver = Inl errXLReadQuorum"
    using read_quorum [of 3 "[]" ver ods env' 0 2, THEN conjunct2] b r by (simp add: ods_def ver_def)
  have c: "readBlock env 3 0 2 ods ver =
         Inr \<lparr> rs_orderedDisks = [Some 0, None, None, Some 3, Some 4, Some 5],
               rs_enBlocks = E, rs_verified = [True, False, True, True, True, True] \<rparr>"
    unfolding env_def ods_def ver_def E_def by code_simp
  from a b c d show ?thesis
    unfolding Let_def ods_def ver_def env_def env'_def E_def E'_def by simp
qed

subsection \<open>Reconstruction and verification\<close>

lemma countDataBlocks_counts:
  "index \<le> n \<Longrightarrow> n \<le> length enBlocks \<Longrightarrow> c = dataCount enBlocks D index \<Longrightarrow>
   countDataBlocks enBlocks n D index c = dataCount enBlocks D n"
proof (induction enBlocks n D index c rule: countDataBlocks.induct)
  case (1 enBlocks n D index c)
  note eq = countDataBlocks.simps [of enBlocks n D index c]
  show ?case
  proof (cases "index < n")
    case False
    then have "countDataBlocks enBlocks n D index c = c" by (simp add: eq)
    moreover from False "1.prems" have "index = n" by simp
    ultimately show ?thesis using "1.prems" by simp
  next
    case True
    with "1.prems" have lt: "index < length enBlocks" and le: "index + 1 \<le> n" by simp_all
    show ?thesis
    proof (cases "enBlocks ! index = None")
      case None: True
      from True None have step: "countDataBlocks enBlocks n D index c =
          countDataBlocks enBlocks n D (index + 1) c" by (simp add: eq)
      from "1.prems"(3) lt None have "c = dataCount enBlocks D (index + 1)"
        by (simp add: dataCount_Suc)
      from "1.IH"(1) [OF True None le "1.prems"(2) this] step show ?thesis by simp
    next
      case Some: False
      show ?thesis
      proof (cases "index < D")
        case data: True
        from True Some data have step: "countDataBlocks enBlocks n D index c =
            countDataBlocks enBlocks n D (index + 1) (c + 1)" by (auto simp: eq)
        from "1.prems"(3) lt Some data have "c + 1 = dataCount enBlocks D (index + 1)"
          by (simp add: dataCount_Suc)
        from "1.IH"(2) [OF True Some data le "1.prems"(2) this] step show ?thesis by simp
      next
        case parity: False
        from True Some parity have step: "countDataBlocks enBlocks n D index c =
            countDataBlocks enBlocks n D (index + 1) c" by (auto simp: eq)
        from "1.prems"(3) lt Some parity have "c = dataCount enBlocks D (index + 1)"
          by (simp add: dataCount_Suc)
        from "1.IH"(3) [OF True Some parity le "1.prems"(2) this] step show ?thesis by simp
      qed
    qed
  qed
qed

lemma dataCount_data:
  assumes "D \<le> length xs"
  shows "D \<le> dataCount xs D D \<longleftrightarrow> (\<forall>j < D. xs ! j \<noteq> None)"
proof -
  have "{j. j < D \<and> j < length xs \<and> j < D \<and> xs ! j \<noteq> None} =
        {j. j < length xs \<and> j < length xs \<and> j < D \<and> xs ! j \<noteq> None}"
    using assms by auto
  then have "dataCount xs D D = dataCount xs D (length xs)" by (simp add: dataCount_def)
  with dataCount_full [OF assms] dataCount_le [of xs D "length xs"] show ?thesis by auto
qed

lemma isSuccessDataBlocks_iff:
  assumes "D \<le> length enBlocks"
  shows "isSuccessDataBlocks enBlocks D = Inr (\<forall>j < D. enBlocks ! j \<noteq> None)"
proof -
  from assms have "countDataBlocks enBlocks (length (take D enBlocks)) D 0 0 =
      dataCount enBlocks D D"
    using countDataBlocks_counts [of 0 D enBlocks 0 D] by simp
  with assms dataCount_data [OF assms] show ?thesis
    by (simp add: isSuccessDataBlocks_def)
qed

lemma decodeData_calls: "fst (decodeData lib enBlocks D P) \<noteq> []"
  by (simp add: decodeData_def split: sum.splits)

text \<open>
  Claim C2. After the read loop of a block (\<open>D\<close> within the block vector), the
  Reed-Solomon library is called exactly when one of the first \<open>D\<close> entries is \<open>nil\<close>.
  In that case, once the codec is built, \<open>decodeData\<close> calls \<open>Reconstruct\<close> on the
  blocks read and, when that succeeds, \<open>Verify\<close> on the whole reconstructed shard
  vector, in this order and nothing else; and when \<open>Verify\<close> reports a mismatch, the
  read returns the error of corrupted data and the sink is left as it was.
\<close>

theorem reconstruct_then_verify:
  assumes "D \<le> length enBlocks"
  shows "(fst (finishBlock lib writeDataBlocks writer enBlocks D P outOffset outSize) \<noteq> []) =
           (\<exists>j < D. enBlocks ! j = None) \<and>
         ((\<exists>j < D. enBlocks ! j = None) \<and> rs_New lib D P = Inr rs \<and>
          rs_Reconstruct lib rs enBlocks = Inr shards \<longrightarrow>
            fst (finishBlock lib writeDataBlocks writer enBlocks D P outOffset outSize) =
              [CallNew D P, CallReconstruct enBlocks, CallVerify shards]) \<and>
         ((\<exists>j < D. enBlocks ! j = None) \<and> rs_New lib D P = Inr rs \<and>
          rs_Reconstruct lib rs enBlocks = Inr shards \<and> rs_Verify lib rs shards = Inr False \<longrightarrow>
            snd (finishBlock lib writeDataBlocks writer enBlocks D P outOffset outSize) =
              (writer, Inl errVerificationFailed))"
proof -
  note s = isSuccessDataBlocks_iff [OF assms]
  show ?thesis
  proof (cases "\<forall>j < D. enBlocks ! j \<noteq> None")
    case True
    then have n: "\<not> (\<exists>j < D. enBlocks ! j = None)" by simp
    from True s have "fst (finishBlock lib writeDataBlocks writer enBlocks D P outOffset outSize) = []"
      by (simp add: finishBlock_def split: prod.splits sum.splits)
    with n show ?thesis by blast
  next
    case False
    then have e: "\<exists>j < D. enBlocks ! j = None" by simp
    from False s have f: "finishBlock lib writeDataBlocks writer enBlocks D P outOffset outSize =
        (case decodeData lib enBlocks D P of
             (calls, Inl err) \<Rightarrow> (calls, writer, Inl err)
           | (calls, Inr enBlocks) \<Rightarrow>
               (case writeDataBlocks writer enBlocks D outOffset outSize of
                  (writer, Inl err) \<Rightarrow> (calls, writer, Inl err)
                | (writer, Inr n) \<Rightarrow> (calls, writer, Inr n)))"
      by (simp add: finishBlock_def)
    have c: "fst (finishBlock lib writeDataBlocks writer enBlocks D P outOffset outSize) =
        fst (decodeData lib enBlocks D P)"
      unfolding f by (simp split: prod.splits sum.splits)
    have a: "fst (finishBlock lib writeDataBlocks writer enBlocks D P outOffset outSize) \<noteq> []"
      unfolding c by (rule decodeData_calls)
    have b: "fst (finishBlock lib writeDataBlocks writer enBlocks D P outOffset outSize) =
              [CallNew D P, CallReconstruct enBlocks, CallVerify shards]"
      if "rs_New lib D P = Inr rs" "rs_Reconstruct lib rs enBlocks = Inr shards"
      unfolding c using that by (simp add: decodeData_def split: sum.splits)
    have d: "snd (finishBlock lib writeDataBlocks writer enBlocks D P outOffset outSize) =
              (writer, Inl errVerificationFailed)"
      if "rs_New lib D P = Inr rs" "rs_Reconstruct lib rs enBlocks = Inr shards"
        "rs_Verify lib rs shards = Inr False"
      unfolding f using that by (simp add: decodeData_def)
    from e a b d show ?thesis by blast
  qed
qed
theorem reconstruct_then_verify_witness:
  "(let lib = \<lparr> rs_New = (\<lambda>d p. Inr ()),
                 rs_Reconstruct = (\<lambda>rs bs. Inr (map (\<lambda>b. Some (blockBytes b)) bs)),
                 rs_Verify = (\<lambda>rs bs. Inr False) \<rparr>;
        wdb = (\<lambda>w bs d off n. (w @ concat (map blockBytes (take d bs)), Inr n));
        E = [Some [1], None, Some [3], Some [4], Some [5], None]
    in finishBlock lib wdb [9] E 3 3 0 3 =
         ([CallNew 3 3, CallReconstruct E,
           CallVerify [Some [1], Some [], Some [3], Some [4], Some [5], Some []]],
          [9], Inl errVerificationFailed) \<and>
       fst (finishBlock lib wdb [9] [Some [1], Some [2], Some [3], None, None, None] 3 3 0 3) = [])"
proof -
  define lib :: "unit rsLib" where "lib = \<lparr> rs_New = (\<lambda>d p. Inr ()),
                 rs_Reconstruct = (\<lambda>rs bs. Inr (map (\<lambda>b. Some (blockBytes b)) bs)),
                 rs_Verify = (\<lambda>rs bs. Inr False) \<rparr>"
  define wdb :: "nat list \<Rightarrow> block list \<Rightarrow> nat \<Rightarrow> int \<Rightarrow> int \<Rightarrow> nat list \<times> (xlError + int)"
    where "wdb = (\<lambda>w bs d off n. (w @ concat (map blockBytes (take d bs)), Inr n))"
  define E :: "block list" where "E = [Some [1], None, Some [3], Some [4], Some [5], None]"
  define R :: "block list" where "R = [Some [1], Some [], Some [3], Some [4], Some [5], Some []]"
  define F :: "block list" where "F = [Some [1], Some [2], Some [3], None, None, None]"
  have miss: "\<exists>j < 3. E ! j = None" by (auto simp: E_def intro: exI [of _ 1])
  have new: "rs_New lib 3 3 = Inr ()" by (simp add: lib_def)
  have rec: "rs_Reconstruct lib () E = Inr R" by (simp add: lib_def E_def R_def blockBytes_def)
  have ver: "rs_Verify lib () R = Inr False" by (simp add: lib_def)
  have len: "3 \<le> length E" "3 \<le> length F" by (simp_all add: E_def F_def)
  note t = reconstruct_then_verify [OF len(1), of lib wdb "[9]" 3 0 3 "()" R]
  from t miss new rec have a: "fst (finishBlock lib wdb [9] E 3 3 0 3) =
      [CallNew 3 3, CallReconstruct E, CallVerify R]" by blast
  from t miss new rec ver have b: "snd (finishBlock lib wdb [9] E 3 3 0 3) =
      ([9], Inl errVerificationFailed)" by blast
  from a b have c: "finishBlock lib wdb [9] E 3 3 0 3 =
      ([CallNew 3 3, CallReconstruct E, CallVerify R], [9], Inl errVerificationFailed)"
    by (simp add: prod_eq_iff)
  have "F ! j \<noteq> None" if "j < 3" for j
  proof -
    from that have "j = 0 \<or> j = 1 \<or> j = 2" by auto
    then show ?thesis by (auto simp: F_def)
  qed
  then have "\<not> (\<exists>j < 3. F ! j = None)" by blast
  with reconstruct_then_verify [OF len(2), of lib wdb "[9]" 3 0 3 "()" R]
  have d: "fst (finishBlock lib wdb [9] F 3 3 0 3) = []" by blast
  from c d show ?thesis
    unfolding Let_def lib_def wdb_def E_def R_def F_def by simp
qed

subsection \<open>\<open>XL.RenameFile\<close>\<close>





end
